theory Spec2Isabelle
  imports Main "HOL-Library.Sublist" "HOL-Library.AList"
begin

section \<open>Python values reaching the core\<close>

text \<open>
  The catalog is decoded JSON. The scalar values the selector reads are modelled by
  \<open>pyval\<close>: null, booleans, integers and strings. JSON numbers are integers here, and a
  string is a list of characters with code points below 256. A dictionary is an
  association list in insertion order, which is the order Python iterates it in.
\<close>

datatype pyval = PNone | PBool bool | PInt int | PStr string

datatype py_error = AttributeError | ValueError | OSError | FileNotFoundError

type_synonym pydict = "(string \<times> pyval) list"

definition truthy :: "pyval \<Rightarrow> bool" where
  "truthy v = (case v of PNone \<Rightarrow> False | PBool b \<Rightarrow> b | PInt i \<Rightarrow> i \<noteq> 0 | PStr s \<Rightarrow> s \<noteq> [])"

text \<open>Python's \<open>a or b\<close>: the first operand when it is truthy, the second otherwise.\<close>

definition py_or :: "pyval \<Rightarrow> pyval \<Rightarrow> pyval" where
  "py_or a b = (if truthy a then a else b)"

text \<open>\<open>d.get(k)\<close>: the value stored under \<open>k\<close>, or None.\<close>

definition dict_get :: "pydict \<Rightarrow> string \<Rightarrow> pyval" where
  "dict_get d k = (case map_of d k of None \<Rightarrow> PNone | Some v \<Rightarrow> v)"

subsection \<open>Strings\<close>

text \<open>
  \<open>str.lower\<close> on code points below 256: the ASCII capitals and the accented capitals
  \<open>0xC0\<close> to \<open>0xDE\<close> (the multiplication sign \<open>0xD7\<close> apart) move up by 32.
\<close>

definition upper_latin :: string where
  "upper_latin =
     [CHR 0xC0, CHR 0xC1, CHR 0xC2, CHR 0xC3, CHR 0xC4, CHR 0xC5, CHR 0xC6, CHR 0xC7,
      CHR 0xC8, CHR 0xC9, CHR 0xCA, CHR 0xCB, CHR 0xCC, CHR 0xCD, CHR 0xCE, CHR 0xCF,
      CHR 0xD0, CHR 0xD1, CHR 0xD2, CHR 0xD3, CHR 0xD4, CHR 0xD5, CHR 0xD6, CHR 0xD8,
      CHR 0xD9, CHR 0xDA, CHR 0xDB, CHR 0xDC, CHR 0xDD, CHR 0xDE]"

definition lower_latin :: string where
  "lower_latin =
     [CHR 0xE0, CHR 0xE1, CHR 0xE2, CHR 0xE3, CHR 0xE4, CHR 0xE5, CHR 0xE6, CHR 0xE7,
      CHR 0xE8, CHR 0xE9, CHR 0xEA, CHR 0xEB, CHR 0xEC, CHR 0xED, CHR 0xEE, CHR 0xEF,
      CHR 0xF0, CHR 0xF1, CHR 0xF2, CHR 0xF3, CHR 0xF4, CHR 0xF5, CHR 0xF6, CHR 0xF8,
      CHR 0xF9, CHR 0xFA, CHR 0xFB, CHR 0xFC, CHR 0xFD, CHR 0xFE]"

definition lower_char :: "char \<Rightarrow> char" where
  "lower_char c =
     (case map_of (zip (''ABCDEFGHIJKLMNOPQRSTUVWXYZ'' @ upper_latin)
                       (''abcdefghijklmnopqrstuvwxyz'' @ lower_latin)) c of
        None \<Rightarrow> c | Some l \<Rightarrow> l)"

definition lower :: "string \<Rightarrow> string" where
  "lower s = map lower_char s"

text \<open>\<open>h in s\<close> on strings: \<open>h\<close> occurs in \<open>s\<close> as a contiguous substring.\<close>

primrec contains :: "string \<Rightarrow> string \<Rightarrow> bool" where
  "contains [] h = (h = [])"
| "contains (c # cs) h = (prefix h (c # cs) \<or> contains cs h)"

definition is_digit :: "char \<Rightarrow> bool" where
  "is_digit c = (c \<in> set ''0123456789'')"

text \<open>
  White space. \<open>str.strip\<close> removes the characters \<open>str.isspace\<close> accepts; below 256
  these are the ASCII white space, the four separators \<open>0x1C\<close> to \<open>0x1F\<close>, and \<open>0x85\<close> and
  \<open>0xA0\<close>. \<open>int\<close> skips less: it replaces the non-ASCII spaces (\<open>0x85\<close>, \<open>0xA0\<close>) by a
  blank and then skips the white space of C, so the four separators are not skipped.
\<close>

definition is_space :: "char \<Rightarrow> bool" where
  "is_space c = (c \<in> set [CHR 0x09, CHR 0x0A, CHR 0x0B, CHR 0x0C, CHR 0x0D,
                            CHR 0x1C, CHR 0x1D, CHR 0x1E, CHR 0x1F, CHR 0x20,
                            CHR 0x85, CHR 0xA0])"

definition is_int_space :: "char \<Rightarrow> bool" where
  "is_int_space c = (c \<in> set [CHR 0x09, CHR 0x0A, CHR 0x0B, CHR 0x0C, CHR 0x0D, CHR 0x20,
                                CHR 0x85, CHR 0xA0])"

definition digit_val :: "char \<Rightarrow> int" where
  "digit_val c = (case map_of (zip ''0123456789'' [0, 1, 2, 3, 4, 5, 6, 7, 8, 9]) c of
                    None \<Rightarrow> 0 | Some d \<Rightarrow> d)"

text \<open>The value of a run of decimal digits, most significant first.\<close>

definition digits_val :: "string \<Rightarrow> int" where
  "digits_val ds = foldl (\<lambda>acc c. 10 * acc + digit_val c) 0 ds"

definition strip :: "string \<Rightarrow> string" where
  "strip s = rev (dropWhile is_space (rev (dropWhile is_space s)))"

definition int_strip :: "string \<Rightarrow> string" where
  "int_strip s = rev (dropWhile is_int_space (rev (dropWhile is_int_space s)))"

text \<open>
  The digits of an integer literal as \<open>int(str)\<close> accepts them: decimal digits, with
  single underscores allowed between two digits.
\<close>

fun digit_groups :: "string \<Rightarrow> bool" where
  "digit_groups [] = False"
| "digit_groups [c] = is_digit c"
| "digit_groups (c # d # cs) =
     (is_digit c \<and> (if d = CHR ''_'' then digit_groups cs else digit_groups (d # cs)))"

definition unsigned_of_str :: "string \<Rightarrow> int option" where
  "unsigned_of_str s =
     (if digit_groups s then Some (digits_val (filter is_digit s)) else None)"

text \<open>
  \<open>int(s)\<close> for a string: the white space \<open>int\<close> skips is removed at both ends, one
  sign is allowed; None where Python raises ValueError. (CPython's configurable limit on the number of
  digits is not part of the model.)
\<close>

definition int_of_str :: "string \<Rightarrow> int option" where
  "int_of_str s =
     (case int_strip s of
        [] \<Rightarrow> None
      | c # cs \<Rightarrow>
          if c = CHR ''-'' then map_option uminus (unsigned_of_str cs)
          else if c = CHR ''+'' then unsigned_of_str cs
          else unsigned_of_str (c # cs))"

text \<open>\<open>int(v)\<close>: None where Python raises (TypeError on None, ValueError on a bad string).\<close>

definition py_int :: "pyval \<Rightarrow> int option" where
  "py_int v =
     (case v of
        PNone \<Rightarrow> None
      | PBool b \<Rightarrow> Some (if b then 1 else 0)
      | PInt i \<Rightarrow> Some i
      | PStr s \<Rightarrow> int_of_str s)"

text \<open>The decimal digits of a natural number, and \<open>str(v)\<close> as an f-string formats it.\<close>

fun dec_digits :: "nat \<Rightarrow> string" where
  "dec_digits n =
     (if n < 10 then [''0123456789'' ! n]
      else dec_digits (n div 10) @ [''0123456789'' ! (n mod 10)])"

definition py_str :: "pyval \<Rightarrow> string" where
  "py_str v =
     (case v of
        PNone \<Rightarrow> ''None''
      | PBool b \<Rightarrow> (if b then ''True'' else ''False'')
      | PInt i \<Rightarrow> (if i < 0 then CHR ''-'' # dec_digits (nat (- i)) else dec_digits (nat i))
      | PStr s \<Rightarrow> s)"

text \<open>
  \<open>v.lower()\<close> and \<open>v.startswith(p)\<close> on a value that may not be a string: a value of
  another type has no such method (AttributeError).
\<close>

definition str_lower :: "pyval \<Rightarrow> py_error + string" where
  "str_lower v = (case v of PStr s \<Rightarrow> Inr (lower s) | _ \<Rightarrow> Inl AttributeError)"

section \<open>Full-resolution URL selection\<close>

definition MIN_LONG_EDGE :: int where
  "MIN_LONG_EDGE = 2000"

definition MIN_FILESIZE_BYTES :: int where
  "MIN_FILESIZE_BYTES = 300 * 1024"

definition THUMB_HINTS :: "string list" where
  "THUMB_HINTS = [''thumb'', ''thumbnail'', ''square'', ''poster'', ''preview'', ''small'',
                  ''mini'', ''tile'', ''low'', ''tiny'']"

definition VIDEO_EXTS :: "string list" where
  "VIDEO_EXTS = [''.mp4'', ''.mov'', ''.m4v'', ''.hevc'']"

definition PREFERRED_ORIGINAL_KEYS :: "string list" where
  "PREFERRED_ORIGINAL_KEYS = [''resoriginal'', ''original'', ''resjpegfull'', ''fullres'',
                              ''master'', ''resfull'', ''publicsharegenericlarge'']"

text \<open>\<open>any(h in low for h in THUMB_HINTS)\<close> on a lower-cased string.\<close>

definition has_hint :: "string \<Rightarrow> bool" where
  "has_hint low = list_ex (contains low) THUMB_HINTS"

definition is_thumbish_name :: "pyval \<Rightarrow> py_error + bool" where
  "is_thumbish_name name =
     (case str_lower (py_or name (PStr [])) of
        Inl e \<Rightarrow> Inl e
      | Inr low \<Rightarrow> Inr (has_hint low))"

definition full_url :: "pyval \<Rightarrow> pyval \<Rightarrow> py_error + string" where
  "full_url location path =
     (case path of
        PStr p \<Rightarrow>
          if prefix ''http://'' p \<or> prefix ''https://'' p then Inr p
          else if truthy location then
            Inr (''https://'' @ py_str location @ (if prefix ''/'' p then p else ''/'' @ p))
          else Inr p
      | _ \<Rightarrow> Inl AttributeError)"

definition get_int :: "pyval \<Rightarrow> int" where
  "get_int v = (case py_int v of None \<Rightarrow> 0 | Some i \<Rightarrow> i)"

text \<open>
  \<open>DIM_IN_KEY.search(key)\<close> for the pattern \<open>(\d+)[xX](\d+)\<close>: the leftmost position
  where a run of digits is followed by x or X and a digit; both groups are greedy. A
  shorter first group cannot match, since the character after it is again a digit.
\<close>

definition dim_match_at :: "string \<Rightarrow> (string \<times> string) option" where
  "dim_match_at s =
     (let d1 = takeWhile is_digit s in
      if d1 = [] then None
      else case dropWhile is_digit s of
             [] \<Rightarrow> None
           | c # r \<Rightarrow>
               if c = CHR ''x'' \<or> c = CHR ''X'' then
                 (let d2 = takeWhile is_digit r in if d2 = [] then None else Some (d1, d2))
               else None)"

fun dim_search :: "string \<Rightarrow> (string \<times> string) option" where
  "dim_search [] = None"
| "dim_search (c # cs) =
     (case dim_match_at (c # cs) of Some m \<Rightarrow> Some m | None \<Rightarrow> dim_search cs)"

definition dimensions_from_key :: "string \<Rightarrow> int \<times> int" where
  "dimensions_from_key k =
     (case dim_search k of
        Some (a, b) \<Rightarrow> (get_int (PStr a), get_int (PStr b))
      | None \<Rightarrow> (0, 0))"

record candidate =
  c_url :: string
  c_w :: int
  c_h :: int
  c_key :: string
  c_size :: int

text \<open>The short-circuit \<open>or\<close> of the four thumbnail tests, in the source's order.\<close>

fun thumbish_any :: "pyval list \<Rightarrow> py_error + bool" where
  "thumbish_any [] = Inr False"
| "thumbish_any (x # xs) =
     (case is_thumbish_name x of
        Inl e \<Rightarrow> Inl e
      | Inr True \<Rightarrow> Inr True
      | Inr False \<Rightarrow> thumbish_any xs)"

definition deriv_url :: "pydict \<Rightarrow> pyval" where
  "deriv_url v = py_or (dict_get v ''url'') (dict_get v ''URL'')"

definition deriv_fname :: "pydict \<Rightarrow> pyval" where
  "deriv_fname v = py_or (py_or (dict_get v ''fileName'') (dict_get v ''filename'')) (PStr [])"

definition deriv_dtype :: "pydict \<Rightarrow> pyval" where
  "deriv_dtype v = py_or (py_or (dict_get v ''derivativeType'') (dict_get v ''type'')) (PStr [])"

definition deriv_dims :: "string \<Rightarrow> pydict \<Rightarrow> int \<times> int" where
  "deriv_dims k v =
     (let w = get_int (py_or (dict_get v ''width'') (dict_get v ''W''));
          h = get_int (py_or (dict_get v ''height'') (dict_get v ''H''))
      in if \<not> (w \<noteq> 0 \<and> h \<noteq> 0) then
           (case dimensions_from_key k of
              (k_w, k_h) \<Rightarrow> if k_w \<noteq> 0 \<and> k_h \<noteq> 0 then (k_w, k_h) else (w, h))
         else (w, h))"

definition candidate_from_derivative ::
  "string \<Rightarrow> pydict \<Rightarrow> pyval \<Rightarrow> py_error + candidate option" where
  "candidate_from_derivative k v location =
     (let url = deriv_url v in
      if \<not> truthy url then Inr None
      else case full_url location url of
        Inl e \<Rightarrow> Inl e
      | Inr url_full \<Rightarrow>
          (case thumbish_any [PStr k, deriv_fname v, deriv_dtype v, PStr url_full] of
             Inl e \<Rightarrow> Inl e
           | Inr True \<Rightarrow> Inr None
           | Inr False \<Rightarrow>
               (case deriv_dims k v of
                  (w, h) \<Rightarrow>
                    Inr (Some \<lparr>c_url = url_full, c_w = w, c_h = h, c_key = k,
                               c_size = get_int (py_or (dict_get v ''fileSize'')
                                                       (dict_get v ''size''))\<rparr>))))"

definition is_video :: "candidate \<Rightarrow> bool" where
  "is_video c = list_ex (\<lambda>ext. suffix ext (lower (c_url c))) VIDEO_EXTS"

definition meets_fullsize_floor :: "candidate \<Rightarrow> bool" where
  "meets_fullsize_floor c =
     (let long_edge = max (c_w c) (c_h c); size = c_size c in
      if is_video c then size = 0 \<or> size \<ge> MIN_FILESIZE_BYTES
      else if long_edge < MIN_LONG_EDGE then False
      else if size \<noteq> 0 \<and> size < MIN_FILESIZE_BYTES then False
      else True)"

text \<open>
  One entry of the derivative catalog: a dictionary, or a value of another type, which the
  selector skips. The catalog itself is a dictionary or something else (absent, null, a
  scalar), which yields no candidate.
\<close>

datatype dval = DDict pydict | DScalar pyval

datatype derivs = Derivs "(string \<times> dval) list" | NotADict pyval

record asset =
  url_location :: pyval
  derivatives :: derivs
  url_path :: pyval

fun collect_candidates :: "(string \<times> dval) list \<Rightarrow> pyval \<Rightarrow> py_error + candidate list" where
  "collect_candidates [] location = Inr []"
| "collect_candidates ((k, DScalar x) # ds) location = collect_candidates ds location"
| "collect_candidates ((k, DDict v) # ds) location =
     (case candidate_from_derivative k v location of
        Inl e \<Rightarrow> Inl e
      | Inr co \<Rightarrow>
          (case collect_candidates ds location of
             Inl e \<Rightarrow> Inl e
           | Inr cs \<Rightarrow> Inr (case co of None \<Rightarrow> cs | Some c \<Rightarrow> c # cs)))"

definition asset_candidates :: "asset \<Rightarrow> py_error + candidate list" where
  "asset_candidates a =
     (case derivatives a of
        Derivs ds \<Rightarrow> collect_candidates ds (url_location a)
      | NotADict x \<Rightarrow> Inr [])"

text \<open>Step 1: the preference list is the outer loop, the candidates the inner one.\<close>

definition pref_match :: "string \<Rightarrow> candidate \<Rightarrow> bool" where
  "pref_match pref c = (c_key c \<noteq> [] \<and> lower (c_key c) = pref \<and> meets_fullsize_floor c)"

fun first_preferred :: "string list \<Rightarrow> candidate list \<Rightarrow> candidate option" where
  "first_preferred [] cs = None"
| "first_preferred (p # ps) cs =
     (case find (pref_match p) cs of
        Some c \<Rightarrow> Some c
      | None \<Rightarrow> first_preferred ps cs)"

text \<open>
  Step 2: \<open>max(fullsize_ok, key=...)\<close> with the key \<open>(w * h, size)\<close>, compared as Python
  compares tuples; \<open>max\<close> keeps the first of several maximal elements.
\<close>

definition area_size :: "candidate \<Rightarrow> int \<times> int" where
  "area_size c = (c_w c * c_h c, c_size c)"

definition key_less :: "int \<times> int \<Rightarrow> int \<times> int \<Rightarrow> bool" where
  "key_less a b = (fst a < fst b \<or> (fst a = fst b \<and> snd a < snd b))"

fun max_from :: "candidate \<Rightarrow> candidate list \<Rightarrow> candidate" where
  "max_from best [] = best"
| "max_from best (c # cs) =
     max_from (if key_less (area_size best) (area_size c) then c else best) cs"

text \<open>Step 3: the asset's own path, unless it looks like a thumbnail.\<close>

definition fallback_url :: "asset \<Rightarrow> py_error + string option" where
  "fallback_url a =
     (let path = url_path a in
      if \<not> truthy path then Inr None
      else case is_thumbish_name path of
        Inl e \<Rightarrow> Inl e
      | Inr True \<Rightarrow> Inr None
      | Inr False \<Rightarrow>
          (case full_url (url_location a) path of
             Inl e \<Rightarrow> Inl e
           | Inr u \<Rightarrow> Inr (Some u)))"

definition pick_from_candidates :: "asset \<Rightarrow> candidate list \<Rightarrow> py_error + string option" where
  "pick_from_candidates a candidates =
     (case first_preferred PREFERRED_ORIGINAL_KEYS candidates of
        Some c \<Rightarrow> Inr (Some (c_url c))
      | None \<Rightarrow>
          (case filter meets_fullsize_floor candidates of
             c # cs \<Rightarrow> Inr (Some (c_url (max_from c cs)))
           | [] \<Rightarrow> fallback_url a))"

definition pick_best_download_url_from_asset :: "asset \<Rightarrow> py_error + string option" where
  "pick_best_download_url_from_asset a =
     (case asset_candidates a of
        Inl e \<Rightarrow> Inl e
      | Inr candidates \<Rightarrow> pick_from_candidates a candidates)"

section \<open>The destination directory and the network\<close>

text \<open>
  The destination directory is a flat listing of named entries, in the order
  \<open>os.listdir\<close> returns them; each entry is a regular file or a subdirectory and has a
  modification time (in microseconds). Other kinds of entry, links, permissions and
  resource limits are outside the model. The directory may be missing.

  What a file holds is one of three things. \<open>Blob b j\<close> is a file of bytes \<open>b\<close> that came
  from the network or was there before, with \<open>j\<close> the list \<open>json.load\<close> returns for these
  bytes, or None when it raises or returns something that is not a list. (The reading is
  determined by the bytes; the model does not compute it and lets any reading go with any
  bytes.) \<open>JsonArray items\<close> is the text \<open>json.dump\<close> writes for a list, or any other text
  that reads as that list. \<open>Truncated\<close> is what a \<open>json.dump\<close> that raised half-way leaves
  behind: the beginning of an array, which is not JSON.

  An item of the ledger is an entry \<open>{filename, downloaded_at, url}\<close>, another value, or a
  value \<open>json.load\<close> returns and \<open>json.dump\<close> with \<open>ensure_ascii=False\<close> cannot write to a
  UTF-8 file: a string with a lone surrogate.
\<close>

type_synonym bytes = "nat list"

datatype jitem = Entry string string string | OtherItem pyval | Unencodable

datatype fdata = Blob bytes "jitem list option" | JsonArray "jitem list" | Truncated

datatype node = File int fdata | Dir int

fun mtime :: "node \<Rightarrow> int" where
  "mtime (File t c) = t"
| "mtime (Dir t) = t"

fun is_file :: "node \<Rightarrow> bool" where
  "is_file (File t c) = True"
| "is_file (Dir t) = False"

type_synonym dir = "(string \<times> node) list"

text \<open>
  The media files are entries of the listing: the names they are saved under are
  basenames. The index filename is joined to the directory as it is, so it may be a path.
  What such a path names below a subdirectory of the listing, or outside the destination
  directory (an absolute path, or one that climbs out through \<open>..\<close>), is not in the listing;
  it is kept in a second table, under the index filename as given: a file, a directory,
  nothing yet in a directory that exists (\<open>OutAbsent\<close>), or, when the path leads back to
  an entry of the listing, the name of that entry. A path the table does not list cannot
  be resolved, except for a direct child of a subdirectory of the listing, which is then
  absent.
\<close>

datatype outside_node = LeadsTo string | OutFile int fdata | OutDir | OutAbsent

text \<open>
  Besides the files, the world records what the code did, in order: the requests it sent,
  the lines it logged, and each call of the reconciler with its keep list.
\<close>

datatype event =
    HeadRequest string
  | GetRequest string
  | WarnTooSmallDeclared int string
  | WarnTooSmallBody int string
  | InfoDownloaded string int
  | DebugIndexUpdated string string
  | WarnIndexFailed string
  | ErrDownloadFailed string
  | InfoPrunedByAge string
  | InfoPrunedByCount string
  | MirrorCall "string list"
  | InfoMirroredDeletion string
  | WarnDeleteFailed string
  | ErrAlbumMissingKeys
  | InfoSyncing
  | WarnNoMedia

record world =
  dest_dir :: "dir option"
  outside :: "(string \<times> outside_node) list"
  events :: "event list"

definition log :: "event \<Rightarrow> world \<Rightarrow> world" where
  "log e w = w\<lparr>events := events w @ [e]\<rparr>"

text \<open>\<open>os.makedirs(dest_dir, exist_ok=True)\<close>.\<close>

definition makedirs :: "world \<Rightarrow> world" where
  "makedirs w = (case dest_dir w of None \<Rightarrow> w\<lparr>dest_dir := Some []\<rparr> | Some d \<Rightarrow> w)"

text \<open>
  The names that denote a directory wherever they are joined to the destination: the
  empty name and the dot names. A path with a NUL character is refused by every call.
\<close>

definition is_dir_name :: "string \<Rightarrow> bool" where
  "is_dir_name n = (n = [] \<or> n = ''.'' \<or> n = ''..'')"

definition has_nul :: "string \<Rightarrow> bool" where
  "has_nul n = (CHR 0x00 \<in> set n)"

definition is_dir_at :: "dir \<Rightarrow> string \<Rightarrow> bool" where
  "is_dir_at d n =
     (is_dir_name n \<or> (case map_of d n of Some (Dir t) \<Rightarrow> True | _ \<Rightarrow> False))"

text \<open>
  \<open>open(tmp_path, 'wb')\<close> followed by the writes of the streaming loop, at time \<open>t\<close>. The
  name is a basename with \<open>.part\<close> appended, so it contains no slash and is an entry of the
  listing.
\<close>

definition fs_write :: "string \<Rightarrow> int \<Rightarrow> fdata \<Rightarrow> world \<Rightarrow> py_error + world" where
  "fs_write n t c w =
     (if has_nul n then Inl ValueError
      else case dest_dir w of
        None \<Rightarrow> Inl FileNotFoundError
      | Some d \<Rightarrow>
          if is_dir_at d n then Inl OSError
          else Inr (w\<lparr>dest_dir := Some (AList.update n (File t c) d)\<rparr>))"

text \<open>\<open>os.remove(path)\<close> for an entry of the listing: a directory is not removed.\<close>

definition fs_remove :: "string \<Rightarrow> world \<Rightarrow> py_error + world" where
  "fs_remove n w =
     (if has_nul n then Inl ValueError
      else case dest_dir w of
        None \<Rightarrow> Inl FileNotFoundError
      | Some d \<Rightarrow>
          if is_dir_at d n then Inl OSError
          else if map_of d n = None then Inl FileNotFoundError
          else Inr (w\<lparr>dest_dir := Some (AList.delete n d)\<rparr>))"

text \<open>\<open>os.replace(src, dst)\<close> for a regular file \<open>src\<close>: it cannot replace a directory.\<close>

definition fs_replace :: "string \<Rightarrow> string \<Rightarrow> world \<Rightarrow> py_error + world" where
  "fs_replace src dst w =
     (if has_nul src \<or> has_nul dst then Inl ValueError
      else case dest_dir w of
        None \<Rightarrow> Inl FileNotFoundError
      | Some d \<Rightarrow>
          (case map_of d src of
             None \<Rightarrow> Inl FileNotFoundError
           | Some x \<Rightarrow>
               if is_dir_at d dst \<or> \<not> is_file x then Inl OSError
               else Inr (w\<lparr>dest_dir := Some (AList.update dst x (AList.delete src d))\<rparr>)))"

subsection \<open>Where the index path leads\<close>

text \<open>
  \<open>os.path.join(dest_dir, index_filename)\<close> is the index filename itself when that is
  absolute, and the directory, a slash and the index filename otherwise. The system then
  resolves the path component by component: an empty component and \<open>.\<close> stay where they
  are, \<open>..\<close> goes up, and every component that is followed by another must be a directory.
\<close>

fun split_slash :: "string \<Rightarrow> string list" where
  "split_slash [] = [[]]"
| "split_slash (c # cs) =
     (if c = CHR ''/'' then [] # split_slash cs
      else (c # hd (split_slash cs)) # tl (split_slash cs))"

text \<open>
  The place a path names: an entry of the listing (which may not exist yet), something the
  listing does not show (with the subdirectory of the listing it is a direct child of,
  when it is one), or no place, with the error every call on the path gets.
\<close>

datatype place = AtEntry string | Elsewhere "string option" | NoPath py_error

text \<open>
  The walk starts in the destination directory (\<open>None\<close>) and may be inside a subdirectory
  of the listing (\<open>Some sub\<close>); what is deeper than that, and what is above the destination
  directory, is elsewhere.
\<close>

fun walk :: "dir \<Rightarrow> string option \<Rightarrow> string list \<Rightarrow> place" where
  "walk d None [] = AtEntry ''.''"
| "walk d (Some sub) [] = AtEntry sub"
| "walk d inside (x # xs) =
     (if x = [] \<or> x = ''.'' then walk d inside xs
      else if x = ''..'' then
        (case inside of None \<Rightarrow> Elsewhere None | Some sub \<Rightarrow> walk d None xs)
      else
        (case inside of
           Some sub \<Rightarrow> Elsewhere (if xs = [] then Some sub else None)
         | None \<Rightarrow>
             if xs = [] then AtEntry x
             else (case map_of d x of
                     None \<Rightarrow> NoPath FileNotFoundError
                   | Some (File t c) \<Rightarrow> NoPath OSError
                   | Some (Dir t) \<Rightarrow> walk d (Some x) xs)))"

definition entry_name :: "string \<Rightarrow> bool" where
  "entry_name m = (\<not> has_nul m \<and> \<not> is_dir_name m \<and> CHR ''/'' \<notin> set m)"

text \<open>Where the joined path leads as far as the listing tells.\<close>

definition route :: "string \<Rightarrow> dir option \<Rightarrow> place" where
  "route n listing =
     (if prefix ''/'' n then Elsewhere None
      else case listing of
             None \<Rightarrow> NoPath FileNotFoundError
           | Some d \<Rightarrow>
               if CHR ''/'' \<in> set n then walk d None (split_slash n) else AtEntry n)"

text \<open>Where it leads, with the table consulted for what the listing does not show.\<close>

definition locate :: "string \<Rightarrow> world \<Rightarrow> place" where
  "locate n w =
     (case route n (dest_dir w) of
        Elsewhere parent \<Rightarrow>
          (case map_of (outside w) n of
             None \<Rightarrow>
               (case parent of
                  None \<Rightarrow> NoPath FileNotFoundError
                | Some sub \<Rightarrow> Elsewhere parent)
           | Some (LeadsTo m) \<Rightarrow> if entry_name m then AtEntry m else NoPath OSError
           | Some other \<Rightarrow> Elsewhere parent)
      | other \<Rightarrow> other)"

text \<open>What is found at the index path: an error when the path cannot be resolved.\<close>

datatype found = Missing | IsDir | IsFile fdata

definition find_path :: "string \<Rightarrow> world \<Rightarrow> py_error + found" where
  "find_path n w =
     (if has_nul n then Inl ValueError
      else case locate n w of
        NoPath e \<Rightarrow> Inl e
      | AtEntry m \<Rightarrow>
          (case dest_dir w of
             None \<Rightarrow> Inl FileNotFoundError
           | Some d \<Rightarrow>
               if is_dir_name m then Inr IsDir
               else (case map_of d m of
                       None \<Rightarrow> Inr Missing
                     | Some (Dir t) \<Rightarrow> Inr IsDir
                     | Some (File t c) \<Rightarrow> Inr (IsFile c)))
      | Elsewhere parent \<Rightarrow>
          (case map_of (outside w) n of
             Some (OutFile t c) \<Rightarrow> Inr (IsFile c)
           | Some OutDir \<Rightarrow> Inr IsDir
           | other \<Rightarrow> Inr Missing))"

text \<open>\<open>os.path.exists\<close>, which answers False on a path that cannot be resolved.\<close>

definition path_exists :: "string \<Rightarrow> world \<Rightarrow> bool" where
  "path_exists n w =
     (case find_path n w of Inr IsDir \<Rightarrow> True | Inr (IsFile c) \<Rightarrow> True | other \<Rightarrow> False)"

text \<open>
  Putting content at the index path, at time \<open>t\<close>. A file created as a direct child of a
  subdirectory of the listing changes the modification time of that subdirectory.
\<close>

definition store :: "string \<Rightarrow> int \<Rightarrow> fdata \<Rightarrow> world \<Rightarrow> world" where
  "store n t c w =
     (case locate n w of
        AtEntry m \<Rightarrow> w\<lparr>dest_dir := map_option (AList.update m (File t c)) (dest_dir w)\<rparr>
      | Elsewhere parent \<Rightarrow>
          (let created = (case map_of (outside w) n of
                            Some (OutFile t' c') \<Rightarrow> False | other \<Rightarrow> True);
               d = (case parent of
                      None \<Rightarrow> dest_dir w
                    | Some sub \<Rightarrow>
                        if created then map_option (AList.update sub (Dir t)) (dest_dir w)
                        else dest_dir w)
           in w\<lparr>dest_dir := d, outside := AList.update n (OutFile t c) (outside w)\<rparr>)
      | NoPath e \<Rightarrow> w)"

subsection \<open>One HTTP exchange\<close>

text \<open>
  What the network answers for one URL: the HEAD probe fails with a request exception or
  returns a status and perhaps a Content-Length header; the GET fails, or returns a status,
  perhaps a Content-Disposition header, and the chunks \<open>iter_content\<close> yields, after
  which the stream may break with a request exception. With the chunks comes \<open>r_json\<close>,
  the list \<open>json.load\<close> returns for the bytes they add up to, if it returns one. The
  exchange also fixes the time files written during it get and the UTC timestamp string of
  the ledger entry.
\<close>

datatype head_result = HeadFailed | HeadResponse bool "string option"

record get_response =
  r_ok :: bool
  r_disposition :: "string option"
  r_chunks :: "bytes list"
  r_stream_fails :: bool
  r_json :: "jitem list option"

datatype get_result = GetFailed | GetResponse get_response

record exchange =
  x_head :: head_result
  x_get :: get_result
  x_clock :: int
  x_stamp :: string

definition content_length :: "string option \<Rightarrow> int" where
  "content_length hdr =
     (case py_int (PStr (case hdr of None \<Rightarrow> ''0'' | Some s \<Rightarrow> s)) of
        None \<Rightarrow> 0 | Some i \<Rightarrow> i)"

text \<open>The pre-flight gate: the declared length read from a successful probe, when it rejects.\<close>

definition head_rejects :: "head_result \<Rightarrow> int option" where
  "head_rejects probe =
     (case probe of
        HeadFailed \<Rightarrow> None
      | HeadResponse ok hdr \<Rightarrow>
          if ok then
            (let cl = content_length hdr in
             if cl \<noteq> 0 \<and> cl < MIN_FILESIZE_BYTES then Some cl else None)
          else None)"

text \<open>
  \<open>re.search(r'filename\*?=([^;]+)', cd)\<close>: the leftmost \<open>filename\<close>, an optional star, an
  equals sign and at least one character other than a semicolon; the group runs up to the
  next semicolon.
\<close>

definition cd_match_at :: "string \<Rightarrow> string option" where
  "cd_match_at s =
     (if prefix ''filename'' s then
        (let r = drop 8 s;
             r' = (case r of [] \<Rightarrow> r | c # t \<Rightarrow> if c = CHR ''*'' then t else r)
         in case r' of
              [] \<Rightarrow> None
            | c # t \<Rightarrow>
                if c = CHR ''='' then
                  (let v = takeWhile (\<lambda>c. c \<noteq> CHR '';'') t in if v = [] then None else Some v)
                else None)
      else None)"

fun cd_search :: "string \<Rightarrow> string option" where
  "cd_search [] = None"
| "cd_search (c # cs) =
     (case cd_match_at (c # cs) of Some v \<Rightarrow> Some v | None \<Rightarrow> cd_search cs)"

definition strip_quotes :: "string \<Rightarrow> string" where
  "strip_quotes s =
     rev (dropWhile (\<lambda>c. c = CHR 0x22) (rev (dropWhile (\<lambda>c. c = CHR 0x22) s)))"

text \<open>\<open>os.path.basename\<close>: what follows the last slash.\<close>

definition basename :: "string \<Rightarrow> string" where
  "basename p = rev (takeWhile (\<lambda>c. c \<noteq> CHR ''/'') (rev p))"

definition disposition_filename :: "string option \<Rightarrow> string option" where
  "disposition_filename hdr =
     (case cd_search (case hdr of None \<Rightarrow> [] | Some cd \<Rightarrow> cd) of
        None \<Rightarrow> None
      | Some v \<Rightarrow> Some (basename (strip_quotes (strip v))))"

text \<open>\<open>os.path.basename(url.split('?')[0])\<close>.\<close>

definition url_basename :: "string \<Rightarrow> string" where
  "url_basename url = basename (takeWhile (\<lambda>c. c \<noteq> CHR ''?'') url)"

definition target_filename :: "get_response \<Rightarrow> string \<Rightarrow> string" where
  "target_filename r url =
     (case disposition_filename (r_disposition r) of
        Some f \<Rightarrow> f
      | None \<Rightarrow> url_basename url)"

text \<open>The bytes the streaming loop writes: the chunks in order, empty ones skipped.\<close>

definition streamed :: "get_response \<Rightarrow> bytes" where
  "streamed r = concat (filter (\<lambda>chunk. chunk \<noteq> []) (r_chunks r))"

text \<open>What the temporary file holds when the loop has ended or broken off.\<close>

definition body :: "get_response \<Rightarrow> fdata" where
  "body r = Blob (streamed r) (r_json r)"

subsection \<open>The ledger\<close>

text \<open>
  \<open>json.load\<close> on an open file, as far as the ledger update goes on with its result: a
  list, or an exception (raised by \<open>json.load\<close>, or by \<open>insert\<close> on what is not a list).
\<close>

definition json_load :: "fdata \<Rightarrow> py_error + jitem list" where
  "json_load c =
     (case c of
        Blob b (Some items) \<Rightarrow> Inr items
      | Blob b None \<Rightarrow> Inl ValueError
      | JsonArray items \<Rightarrow> Inr items
      | Truncated \<Rightarrow> Inl ValueError)"

text \<open>
  \<open>json.dump(idx, fh, ensure_ascii=False, indent=2)\<close> into a file just opened for writing,
  and so empty: the text of the list, or UnicodeEncodeError (a ValueError) with a part of
  the text written.
\<close>

definition encodable :: "jitem \<Rightarrow> bool" where
  "encodable i = (i \<noteq> Unencodable)"

definition json_dump :: "jitem list \<Rightarrow> py_error option \<times> fdata" where
  "json_dump items =
     (if list_all encodable items then (None, JsonArray items) else (Some ValueError, Truncated))"

text \<open>
  Reading the ledger: the empty list when \<open>os.path.exists\<close> answers False, what \<open>json.load\<close>
  returns when a file is there, and the exception of \<open>open\<close> on a directory.
\<close>

definition read_index :: "string \<Rightarrow> world \<Rightarrow> py_error + jitem list" where
  "read_index n w =
     (if \<not> path_exists n w then Inr []
      else case find_path n w of
        Inr (IsFile c) \<Rightarrow> json_load c
      | other \<Rightarrow> Inl OSError)"

text \<open>
  Writing the ledger: \<open>open(index_path, 'w')\<close> raises when the path cannot be resolved or
  names a directory; otherwise it creates or empties the file, and \<open>json.dump\<close> follows.
\<close>

definition write_index :: "string \<Rightarrow> int \<Rightarrow> jitem list \<Rightarrow> world \<Rightarrow> py_error option \<times> world" where
  "write_index n t items w =
     (case find_path n w of
        Inl e \<Rightarrow> (Some e, w)
      | Inr IsDir \<Rightarrow> (Some OSError, w)
      | Inr other \<Rightarrow> (case json_dump items of (err, c) \<Rightarrow> (err, store n t c w)))"

text \<open>The try block around the ledger update: every exception ends in a warning.\<close>

definition update_index :: "string \<Rightarrow> string \<Rightarrow> string \<Rightarrow> exchange \<Rightarrow> world \<Rightarrow> world" where
  "update_index index_name filename url x w =
     (case read_index index_name w of
        Inl e \<Rightarrow> log (WarnIndexFailed index_name) w
      | Inr idx \<Rightarrow>
          (case write_index index_name (x_clock x) (Entry filename (x_stamp x) url # idx) w of
             (Some e, w') \<Rightarrow> log (WarnIndexFailed index_name) w'
           | (None, w') \<Rightarrow> log (DebugIndexUpdated index_name filename) w'))"

subsection \<open>Download\<close>

text \<open>
  The result is \<open>Inr True\<close> for an accepted download, \<open>Inr False\<close> where the source
  returns False, and \<open>Inl e\<close> for an exception the function does not catch; the world is
  returned as the call leaves it in each case.
\<close>

text \<open>The \<open>if index_filename:\<close> block: no ledger when the name is None or empty.\<close>

definition record_download :: "string option \<Rightarrow> string \<Rightarrow> string \<Rightarrow> exchange \<Rightarrow> world \<Rightarrow> world" where
  "record_download index_filename filename url x w =
     (case index_filename of
        None \<Rightarrow> w
      | Some index_name \<Rightarrow>
          if index_name = [] then w else update_index index_name filename url x w)"

text \<open>After the stream has ended: the post-transfer gate, then promotion and the ledger.\<close>

definition promote :: "get_response \<Rightarrow> string \<Rightarrow> string option \<Rightarrow> exchange \<Rightarrow> world \<Rightarrow>
    (py_error + bool) \<times> world" where
  "promote r url index_filename x w =
     (let filename = target_filename r url;
          total_bytes = int (length (streamed r))
      in if total_bytes < MIN_FILESIZE_BYTES then
           (case fs_remove (filename @ ''.part'') w of
              Inl e \<Rightarrow>
                if e = FileNotFoundError then (Inr False, log (WarnTooSmallBody total_bytes url) w)
                else (Inl e, w)
            | Inr w' \<Rightarrow> (Inr False, log (WarnTooSmallBody total_bytes url) w'))
         else
           (case fs_replace (filename @ ''.part'') filename w of
              Inl e \<Rightarrow> (Inl e, w)
            | Inr w' \<Rightarrow>
                (Inr True,
                 record_download index_filename filename url x
                   (log (InfoDownloaded filename total_bytes) w'))))"

text \<open>
  The GET, the streaming loop into the temporary file, and what follows it. A request
  exception (a failed request, an error status, a broken stream) is caught and logged.
\<close>

definition transfer :: "string \<Rightarrow> string option \<Rightarrow> exchange \<Rightarrow> world \<Rightarrow>
    (py_error + bool) \<times> world" where
  "transfer url index_filename x w =
     (case x_get x of
        GetFailed \<Rightarrow> (Inr False, log (ErrDownloadFailed url) w)
      | GetResponse r \<Rightarrow>
          if \<not> r_ok r then (Inr False, log (ErrDownloadFailed url) w)
          else
            (case fs_write (target_filename r url @ ''.part'') (x_clock x) (body r) w of
               Inl e \<Rightarrow> (Inl e, w)
             | Inr w' \<Rightarrow>
                 if r_stream_fails r then (Inr False, log (ErrDownloadFailed url) w')
                 else promote r url index_filename x w'))"

definition download_file :: "exchange \<Rightarrow> string \<Rightarrow> string option \<Rightarrow> world \<Rightarrow>
    (py_error + bool) \<times> world" where
  "download_file x url index_filename w0 =
     (let w = log (HeadRequest url) (makedirs w0) in
      case head_rejects (x_head x) of
        Some cl \<Rightarrow> (Inr False, log (WarnTooSmallDeclared cl url) w)
      | None \<Rightarrow> transfer url index_filename x (log (GetRequest url) w))"

subsection \<open>Prune and mirror\<close>

definition DAY :: int where
  "DAY = 86400000000"

definition listing :: "world \<Rightarrow> (string \<times> int) list option" where
  "listing w =
     (case dest_dir w of None \<Rightarrow> None | Some d \<Rightarrow> Some (map (\<lambda>(f, x). (f, mtime x)) d))"

text \<open>\<open>files.sort(key=lambda x: x[1], reverse=True)\<close>: stable, newest first.\<close>

definition newest_first :: "(string \<times> int) list \<Rightarrow> (string \<times> int) list" where
  "newest_first files = sort_key (\<lambda>(f, t). - t) files"

text \<open>A loop of \<open>os.remove\<close> calls outside any try block: the first exception ends it.\<close>

fun remove_each :: "(string \<Rightarrow> event) \<Rightarrow> string list \<Rightarrow> world \<Rightarrow> py_error option \<times> world" where
  "remove_each ev [] w = (None, w)"
| "remove_each ev (f # fs) w =
     (case fs_remove f w of
        Inl e \<Rightarrow> (Some e, w)
      | Inr w' \<Rightarrow> remove_each ev fs (log (ev f) w'))"

definition prune_files :: "int \<Rightarrow> int \<Rightarrow> int \<Rightarrow> world \<Rightarrow> py_error option \<times> world" where
  "prune_files now keep_days max_files w =
     (case listing w of
        None \<Rightarrow> (None, w)
      | Some files0 \<Rightarrow>
          (case (if keep_days > 0 then
                   remove_each InfoPrunedByAge
                     (map fst (filter (\<lambda>(f, t). t < now - keep_days * DAY) (newest_first files0))) w
                 else (None, w)) of
             (Some e, w1) \<Rightarrow> (Some e, w1)
           | (None, w1) \<Rightarrow>
               (case listing w1 of
                  None \<Rightarrow> (None, w1)
                | Some files1 \<Rightarrow>
                    (let files = newest_first files1 in
                     if max_files > 0 \<and> int (length files) > max_files then
                       remove_each InfoPrunedByCount (map fst (drop (nat max_files) files)) w1
                     else (None, w1)))))"

text \<open>The reconciler's loop: each \<open>os.remove\<close> is in its own try block.\<close>

fun mirror_delete :: "string list \<Rightarrow> world \<Rightarrow> world" where
  "mirror_delete [] w = w"
| "mirror_delete (f # fs) w =
     mirror_delete fs
       (case fs_remove f w of
          Inl e \<Rightarrow> log (WarnDeleteFailed f) w
        | Inr w' \<Rightarrow> log (InfoMirroredDeletion f) w')"

definition mirror_missing_files :: "string list \<Rightarrow> world \<Rightarrow> world" where
  "mirror_missing_files current_filenames w0 =
     (let w = log (MirrorCall current_filenames) w0 in
      case dest_dir w of
        None \<Rightarrow> w
      | Some d \<Rightarrow> mirror_delete (filter (\<lambda>f. f \<notin> set current_filenames) (map fst d)) w)"

section \<open>Sync one album\<close>

text \<open>
  The album and global settings \<open>sync_album\<close> reads, after its defaults were applied: a
  missing key of the album is None, and the index filename is None or empty when the
  ledger is switched off.
\<close>

record config =
  cfg_shared_url :: "string option"
  cfg_album_subfolder :: "string option"
  cfg_index_filename :: "string option"
  cfg_keep_days :: int
  cfg_max_files :: int
  cfg_mirror_missing :: bool

definition str_truthy :: "string option \<Rightarrow> bool" where
  "str_truthy s = (case s of None \<Rightarrow> False | Some t \<Rightarrow> t \<noteq> [])"

text \<open>
  The download loop over the URLs \<open>fetch_album_media\<close> returned, each paired with what the
  network answers for it; the result is \<open>downloaded_filenames\<close>.
\<close>

fun download_all :: "(string \<times> exchange) list \<Rightarrow> string option \<Rightarrow> world \<Rightarrow>
    (py_error + string list) \<times> world" where
  "download_all [] index_filename w = (Inr [], w)"
| "download_all ((url, x) # rest) index_filename w =
     (case download_file x url index_filename w of
        (Inl e, w') \<Rightarrow> (Inl e, w')
      | (Inr ok, w') \<Rightarrow>
          (case download_all rest index_filename w' of
             (Inl e, w'') \<Rightarrow> (Inl e, w'')
           | (Inr names, w'') \<Rightarrow> (Inr (if ok then url_basename url # names else names), w'')))"

definition current_on_disk :: "world \<Rightarrow> string list" where
  "current_on_disk w =
     (case dest_dir w of
        None \<Rightarrow> []
      | Some d \<Rightarrow> map fst (filter (\<lambda>(f, x). is_file x) d))"

definition sync_album :: "config \<Rightarrow> int \<Rightarrow> (string \<times> exchange) list \<Rightarrow> world \<Rightarrow>
    py_error option \<times> world" where
  "sync_album cfg now media_urls w0 =
     (if \<not> str_truthy (cfg_shared_url cfg) \<or> \<not> str_truthy (cfg_album_subfolder cfg) then
        (None, log ErrAlbumMissingKeys w0)
      else
        (let w = log InfoSyncing (makedirs w0) in
         if media_urls = [] then (None, log WarnNoMedia w)
         else
           (case download_all media_urls (cfg_index_filename cfg) w of
              (Inl e, w1) \<Rightarrow> (Some e, w1)
            | (Inr downloaded_filenames, w1) \<Rightarrow>
                (case prune_files now (cfg_keep_days cfg) (cfg_max_files cfg) w1 of
                   (Some e, w2) \<Rightarrow> (Some e, w2)
                 | (None, w2) \<Rightarrow>
                     if cfg_mirror_missing cfg then
                       (None,
                        mirror_missing_files
                          (if downloaded_filenames = [] then current_on_disk w2
                           else downloaded_filenames) w2)
                     else (None, w2)))))"

section \<open>Predicates of the stated properties\<close>

text \<open>
  A derivative is thumbnail-like when one of the four signals the candidate constructor
  tests carries a hint: its key, its filename hint, its declared type, or its resolved URL
  \<open>u\<close>. A signal that is not a string carries none.
\<close>

definition str_has_hint :: "pyval \<Rightarrow> bool" where
  "str_has_hint v = (case v of PStr s \<Rightarrow> has_hint (lower s) | _ \<Rightarrow> False)"

definition thumbnail_like :: "string \<Rightarrow> pydict \<Rightarrow> string \<Rightarrow> bool" where
  "thumbnail_like k v u =
     (has_hint (lower k) \<or> str_has_hint (deriv_fname v) \<or> str_has_hint (deriv_dtype v) \<or>
      has_hint (lower u))"

text \<open>
  The world in which the transfer of a URL starts (the directory made, both requests
  recorded), the directory as a list (empty when missing), and the entry at the final
  destination path of a response.
\<close>

definition started :: "string \<Rightarrow> world \<Rightarrow> world" where
  "started url w = log (GetRequest url) (log (HeadRequest url) (makedirs w))"

definition final_entry :: "get_response \<Rightarrow> string \<Rightarrow> world \<Rightarrow> node option" where
  "final_entry r url w =
     (case dest_dir w of None \<Rightarrow> None | Some d \<Rightarrow> map_of d (target_filename r url))"

text \<open>
  The URLs of a media list whose download is accepted, in order, when the downloads run
  one after the other from a given world.
\<close>

fun downloaded_urls :: "(string \<times> exchange) list \<Rightarrow> string option \<Rightarrow> world \<Rightarrow> string list" where
  "downloaded_urls [] index_filename w = []"
| "downloaded_urls ((url, x) # rest) index_filename w =
     (case download_file x url index_filename w of
        (res, w') \<Rightarrow>
          (if res = Inr True then [url] else []) @ downloaded_urls rest index_filename w')"

definition dir_of :: "world \<Rightarrow> dir" where
  "dir_of w = (case dest_dir w of None \<Rightarrow> [] | Some d \<Rightarrow> d)"

text \<open>
  A well-formed listing: the names are distinct, none contains a NUL character and none is
  a name that denotes a directory by itself. A directory of files holds no subdirectory.
\<close>

definition plain_names :: "dir \<Rightarrow> bool" where
  "plain_names d =
     (distinct (map fst d) \<and> list_all (\<lambda>(n, x). \<not> has_nul n \<and> \<not> is_dir_name n) d)"

definition all_files :: "dir \<Rightarrow> bool" where
  "all_files d = list_all (\<lambda>(n, x). is_file x) d"

section \<open>Example inputs\<close>

definition shared_url_asset :: asset where
  "shared_url_asset =
     \<lparr>url_location = PNone,
      derivatives = Derivs
        [(''thumb_4032x3024'', DDict [(''url'', PStr ''https://h.example/B/a.jpg''),
                                     (''width'', PInt 4032), (''height'', PInt 3024)]),
         (''R4032x3024'', DDict [(''url'', PStr ''https://h.example/B/a.jpg'')])],
      url_path = PNone\<rparr>"

definition fallback_same_url_asset :: asset where
  "fallback_same_url_asset =
     \<lparr>url_location = PStr ''h.example'',
      derivatives = Derivs
        [(''thumb_4032x3024'', DDict [(''url'', PStr ''/B/a.jpg''), (''width'', PInt 4032),
                                     (''height'', PInt 3024), (''fileSize'', PInt 2000000)])],
      url_path = PStr ''/B/a.jpg''\<rparr>"

definition preferred_vs_larger_asset :: asset where
  "preferred_vs_larger_asset =
     \<lparr>url_location = PStr ''h.example'',
      derivatives = Derivs
        [(''R8000x6000'', DDict [(''url'', PStr ''/B/huge.jpg''), (''fileSize'', PStr ''9000000'')]),
         (''resOriginal'', DDict [(''url'', PStr ''/B/orig.jpg''), (''width'', PStr ''4032''),
                                 (''height'', PStr ''3024''), (''fileSize'', PStr ''2000000'')])],
      url_path = PNone\<rparr>"

definition area_vs_size_asset :: asset where
  "area_vs_size_asset =
     \<lparr>url_location = PStr ''h.example'',
      derivatives = Derivs
        [(''R4000x3000'', DDict [(''url'', PStr ''/B/a4000.jpg''), (''width'', PInt 4000),
                                (''height'', PInt 3000), (''size'', PInt 1000000)]),
         (''R4032x3024'', DDict [(''url'', PStr ''/B/a4032.jpg''), (''width'', PInt 4032),
                                (''height'', PInt 3024), (''size'', PInt 500000)])],
      url_path = PNone\<rparr>"

definition big_body :: bytes where
  "big_body = replicate 307200 7"

definition photo_url :: string where
  "photo_url = ''https://h.example/B/abc123.jpg?o=AbC&v=1''"

definition photo_response :: get_response where
  "photo_response =
     \<lparr>r_ok = True, r_disposition = Some ''attachment; filename=IMG_0001.JPG'',
      r_chunks = [big_body], r_stream_fails = False, r_json = None\<rparr>"

definition photo_exchange :: exchange where
  "photo_exchange =
     \<lparr>x_head = HeadFailed, x_get = GetResponse photo_response,
      x_clock = 1700000000000000, x_stamp = ''2023-11-14T22:13:20Z''\<rparr>"

definition zero_length_exchange :: exchange where
  "zero_length_exchange =
     \<lparr>x_head = HeadResponse True (Some ''0''), x_get = GetResponse photo_response,
      x_clock = 1700000000000000, x_stamp = ''2023-11-14T22:13:20Z''\<rparr>"

definition declared_small_exchange :: exchange where
  "declared_small_exchange =
     \<lparr>x_head = HeadResponse True (Some ''1024''), x_get = GetResponse photo_response,
      x_clock = 1700000000000000, x_stamp = ''2023-11-14T22:13:20Z''\<rparr>"

definition tiny_response :: get_response where
  "tiny_response =
     \<lparr>r_ok = True, r_disposition = None, r_chunks = [[1, 2, 3], [], [4, 5]],
      r_stream_fails = False, r_json = None\<rparr>"

definition tiny_exchange :: exchange where
  "tiny_exchange =
     \<lparr>x_head = HeadResponse True None, x_get = GetResponse tiny_response,
      x_clock = 1700000000000000, x_stamp = ''2023-11-14T22:13:20Z''\<rparr>"

definition empty_world :: world where
  "empty_world = \<lparr>dest_dir = Some [], outside = [], events = []\<rparr>"

definition album_world :: world where
  "album_world =
     \<lparr>dest_dir = Some
        [(''abc123.jpg'', File 1600000000000000 (Blob [9, 9] None)),
         (''index.json'', File 1600000000000001
            (JsonArray [Entry ''abc123.jpg'' ''2020-09-13T12:26:40Z''
                          ''https://h.example/B/abc123.jpg?o=Old'']))],
      outside = [], events = []\<rparr>"

definition album_after_photo :: world where
  "album_after_photo =
     \<lparr>dest_dir = Some
        [(''abc123.jpg'', File 1600000000000000 (Blob [9, 9] None)),
         (''index.json'', File 1600000000000001
            (JsonArray [Entry ''abc123.jpg'' ''2020-09-13T12:26:40Z''
                          ''https://h.example/B/abc123.jpg?o=Old''])),
         (''IMG_0001.JPG'', File 1700000000000000 (Blob big_body None))],
      outside = [],
      events = [HeadRequest photo_url, GetRequest photo_url,
                InfoDownloaded ''IMG_0001.JPG'' 307200]\<rparr>"

definition mirror_cfg :: config where
  "mirror_cfg =
     \<lparr>cfg_shared_url = Some ''https://www.icloud.com/sharedalbum/#B0aGWZuqDGvuOrF'',
      cfg_album_subfolder = Some ''holiday'', cfg_index_filename = Some ''index.json'',
      cfg_keep_days = 0, cfg_max_files = 500, cfg_mirror_missing = True\<rparr>"

definition ten_files :: dir where
  "ten_files =
     [(''img03.jpg'', File 1003 (Blob [] None)), (''img07.jpg'', File 1007 (Blob [] None)),
      (''img01.jpg'', File 1001 (Blob [] None)), (''img10.jpg'', File 1010 (Blob [] None)),
      (''img05.jpg'', File 1005 (Blob [] None)), (''img02.jpg'', File 1002 (Blob [] None)),
      (''img09.jpg'', File 1009 (Blob [] None)), (''img04.jpg'', File 1004 (Blob [] None)),
      (''img08.jpg'', File 1008 (Blob [] None)), (''img06.jpg'', File 1006 (Blob [] None))]"

definition album_dir_after_photo :: dir where
  "album_dir_after_photo =
     [(''abc123.jpg'', File 1600000000000000 (Blob [9, 9] None)),
      (''index.json'', File 1700000000000000
         (JsonArray [Entry ''IMG_0001.JPG'' ''2023-11-14T22:13:20Z'' photo_url,
                     Entry ''abc123.jpg'' ''2020-09-13T12:26:40Z''
                       ''https://h.example/B/abc123.jpg?o=Old''])),
      (''IMG_0001.JPG'', File 1700000000000000 (Blob big_body None))]"

text \<open>
  A URL whose last segment is the default index filename, answered with a JSON array of
  307200 bytes: an opening bracket, blanks and a closing bracket, which reads as the empty
  list; and the same with a string holding a lone surrogate escape in front of the blanks.
\<close>

definition index_url :: string where
  "index_url = ''https://h.example/B/index.json''"

definition array_body :: bytes where
  "array_body = 91 # replicate 307198 32 @ [93]"

definition array_response :: get_response where
  "array_response =
     \<lparr>r_ok = True, r_disposition = None, r_chunks = [array_body], r_stream_fails = False,
      r_json = Some []\<rparr>"

definition array_exchange :: exchange where
  "array_exchange =
     \<lparr>x_head = HeadFailed, x_get = GetResponse array_response,
      x_clock = 1700000000000000, x_stamp = ''2023-11-14T22:13:20Z''\<rparr>"

definition surrogate_body :: bytes where
  "surrogate_body = [91, 34, 92, 117, 100, 56, 48, 48, 34] @ replicate 307190 32 @ [93]"

definition surrogate_response :: get_response where
  "surrogate_response =
     \<lparr>r_ok = True, r_disposition = None, r_chunks = [surrogate_body], r_stream_fails = False,
      r_json = Some [Unencodable]\<rparr>"

definition surrogate_exchange :: exchange where
  "surrogate_exchange =
     \<lparr>x_head = HeadFailed, x_get = GetResponse surrogate_response,
      x_clock = 1700000000000000, x_stamp = ''2023-11-14T22:13:20Z''\<rparr>"

section \<open>The selector: auxiliary facts\<close>

lemma thumbish_any_False:
  "thumbish_any xs = Inr False \<Longrightarrow> x \<in> set xs \<Longrightarrow> is_thumbish_name x = Inr False"
  by (induction xs) (auto split: sum.splits bool.splits)

lemma is_thumbish_name_PStr: "is_thumbish_name (PStr s) = Inr (has_hint (lower s))"
  by (cases s) (simp_all add: is_thumbish_name_def str_lower_def py_or_def truthy_def lower_def)

lemma is_thumbish_name_False:
  "is_thumbish_name x = Inr False \<Longrightarrow> \<not> str_has_hint x"
  by (cases x) (auto simp: str_has_hint_def is_thumbish_name_PStr)

lemma candidate_SomeD:
  assumes "candidate_from_derivative k v loc = Inr (Some c)"
  shows "full_url loc (deriv_url v) = Inr (c_url c) \<and> c_key c = k \<and>
         \<not> thumbnail_like k v (c_url c)"
proof -
  from assms obtain u where u: "full_url loc (deriv_url v) = Inr u"
    and t: "thumbish_any [PStr k, deriv_fname v, deriv_dtype v, PStr u] = Inr False"
    and c: "c_url c = u" "c_key c = k"
    by (auto simp: candidate_from_derivative_def Let_def
             split: if_splits sum.splits bool.splits prod.splits)
  have "is_thumbish_name (PStr k) = Inr False" "is_thumbish_name (deriv_fname v) = Inr False"
       "is_thumbish_name (deriv_dtype v) = Inr False" "is_thumbish_name (PStr u) = Inr False"
    using thumbish_any_False [OF t] by simp_all
  then show ?thesis
    using u c by (auto simp: thumbnail_like_def is_thumbish_name_PStr dest: is_thumbish_name_False)
qed

lemma collect_candidates_mem:
  "collect_candidates ds loc = Inr cs \<Longrightarrow> c \<in> set cs \<Longrightarrow>
   \<exists>k v. (k, DDict v) \<in> set ds \<and> candidate_from_derivative k v loc = Inr (Some c)"
proof (induction ds arbitrary: cs)
  case Nil
  then show ?case by simp
next
  case (Cons d ds)
  obtain k x where d: "d = (k, x)" by (cases d)
  show ?case
  proof (cases x)
    case (DScalar y)
    with Cons d show ?thesis by auto
  next
    case (DDict v)
    with Cons.prems d obtain co cs' where
      co: "candidate_from_derivative k v loc = Inr co" and
      cs': "collect_candidates ds loc = Inr cs'" and
      cs: "cs = (case co of None \<Rightarrow> cs' | Some c \<Rightarrow> c # cs')"
      by (auto split: sum.splits)
    show ?thesis
    proof (cases "c \<in> set cs'")
      case True
      from Cons.IH [OF cs' True] show ?thesis by auto
    next
      case False
      with cs Cons.prems(2) have "co = Some c" by (cases co) auto
      with co d DDict show ?thesis by auto
    qed
  qed
qed

lemma first_preferred_Some:
  "first_preferred ps cs = Some c \<Longrightarrow>
   \<exists>qs p rs cs1 cs2. ps = qs @ p # rs \<and> cs = cs1 @ c # cs2 \<and> pref_match p c \<and>
     (\<forall>q\<in>set qs. \<forall>c'\<in>set cs. \<not> pref_match q c') \<and> (\<forall>c'\<in>set cs1. \<not> pref_match p c')"
proof (induction ps)
  case Nil
  then show ?case by simp
next
  case (Cons p ps)
  show ?case
  proof (cases "find (pref_match p) cs")
    case None
    then have no: "\<forall>c'\<in>set cs. \<not> pref_match p c'"
      by (simp add: find_None_iff)
    from None Cons.prems have "first_preferred ps cs = Some c" by simp
    from Cons.IH [OF this] obtain qs q rs cs1 cs2 where
      h: "ps = qs @ q # rs" "cs = cs1 @ c # cs2" "pref_match q c"
         "\<forall>q\<in>set qs. \<forall>c'\<in>set cs. \<not> pref_match q c'" "\<forall>c'\<in>set cs1. \<not> pref_match q c'"
      by blast
    have "p # ps = (p # qs) @ q # rs" using h(1) by simp
    moreover have "\<forall>q\<in>set (p # qs). \<forall>c'\<in>set cs. \<not> pref_match q c'"
      using no h(4) by simp
    ultimately show ?thesis using h(2,3,5) by blast
  next
    case (Some d)
    with Cons.prems have d: "d = c" by simp
    from Some obtain i where i: "i < length cs" "pref_match p (cs ! i)" "d = cs ! i"
      "\<forall>j<i. \<not> pref_match p (cs ! j)"
      by (auto simp: find_Some_iff)
    have split: "cs = take i cs @ c # drop (Suc i) cs"
      using i(1,3) d by (simp add: id_take_nth_drop)
    have before: "\<forall>c'\<in>set (take i cs). \<not> pref_match p c'"
    proof
      fix c' assume "c' \<in> set (take i cs)"
      then obtain j where "j < length (take i cs)" "take i cs ! j = c'"
        by (auto simp: in_set_conv_nth)
      then show "\<not> pref_match p c'" using i(1,4) by auto
    qed
    have "p # ps = [] @ p # ps" by simp
    moreover have "\<forall>q\<in>set []. \<forall>c'\<in>set cs. \<not> pref_match q c'" by simp
    ultimately show ?thesis using split before i(2,3) d by blast
  qed
qed

lemma first_preferred_None:
  "first_preferred ps cs = None \<longleftrightarrow> (\<forall>p\<in>set ps. \<forall>c\<in>set cs. \<not> pref_match p c)"
proof (induction ps)
  case Nil
  then show ?case by simp
next
  case (Cons p ps)
  show ?case
  proof (cases "find (pref_match p) cs")
    case None
    then have "\<forall>c\<in>set cs. \<not> pref_match p c" by (simp add: find_None_iff)
    with None Cons.IH show ?thesis by simp
  next
    case (Some d)
    then have "d \<in> set cs" "pref_match p d"
      by (auto simp: find_Some_iff)
    with Some show ?thesis by auto
  qed
qed

lemma empty_not_preferred: "[] \<notin> set PREFERRED_ORIGINAL_KEYS"
  by (simp add: PREFERRED_ORIGINAL_KEYS_def)

lemma max_from_mem: "max_from b cs \<in> set (b # cs)"
  by (induction cs arbitrary: b) (auto split: if_splits)

lemma key_less_total: "\<not> key_less a b \<Longrightarrow> \<not> key_less b c \<Longrightarrow> \<not> key_less a c"
  by (auto simp: key_less_def)

lemma max_from_ge_start: "\<not> key_less (area_size (max_from b cs)) (area_size b)"
proof (induction cs arbitrary: b)
  case Nil
  then show ?case by (simp add: key_less_def)
next
  case (Cons c cs)
  show ?case
  proof (cases "key_less (area_size b) (area_size c)")
    case True
    have "\<not> key_less (area_size (max_from c cs)) (area_size c)" by (rule Cons.IH)
    with True show ?thesis by (auto simp: key_less_def)
  next
    case False
    then show ?thesis using Cons.IH [of b] by simp
  qed
qed

lemma max_from_max: "c \<in> set (b # cs) \<Longrightarrow> \<not> key_less (area_size (max_from b cs)) (area_size c)"
proof (induction cs arbitrary: b)
  case Nil
  then show ?case by (simp add: key_less_def)
next
  case (Cons d cs)
  let ?b' = "if key_less (area_size b) (area_size d) then d else b"
  have m: "max_from b (d # cs) = max_from ?b' cs" by simp
  consider "c = b" | "c = d" | "c \<in> set cs" using Cons.prems by auto
  then show ?case
  proof cases
    case 1
    have "\<not> key_less (area_size (max_from ?b' cs)) (area_size ?b')" by (rule max_from_ge_start)
    moreover have "\<not> key_less (area_size ?b') (area_size b)" by (auto simp: key_less_def)
    ultimately show ?thesis unfolding m 1 by (rule key_less_total)
  next
    case 2
    have "\<not> key_less (area_size (max_from ?b' cs)) (area_size ?b')" by (rule max_from_ge_start)
    moreover have "\<not> key_less (area_size ?b') (area_size d)" by (auto simp: key_less_def)
    ultimately show ?thesis unfolding m 2 by (rule key_less_total)
  next
    case 3
    then show ?thesis unfolding m using Cons.IH [of ?b'] by simp
  qed
qed

lemma thumbnail_like_no_candidate:
  assumes "full_url loc (deriv_url v) = Inr u" "thumbnail_like k v u"
  shows "candidate_from_derivative k v loc \<noteq> Inr (Some c)"
proof
  assume "candidate_from_derivative k v loc = Inr (Some c)"
  from candidate_SomeD [OF this] assms show False by simp
qed

lemma fallback_url_SomeD:
  assumes "fallback_url a = Inr (Some r)"
  shows "\<exists>p. url_path a = PStr p \<and> \<not> has_hint (lower p) \<and>
             full_url (url_location a) (PStr p) = Inr r"
proof (cases "url_path a")
  case (PStr p)
  with assms show ?thesis
    by (auto simp: fallback_url_def Let_def is_thumbish_name_PStr
             split: if_splits sum.splits bool.splits)
qed (use assms in \<open>auto simp: fallback_url_def Let_def is_thumbish_name_def str_lower_def
      py_or_def truthy_def split: if_splits sum.splits bool.splits\<close>)

lemma pick_from_candidates_SomeD:
  assumes "pick_from_candidates a cands = Inr (Some r)"
  shows "(\<exists>c\<in>set cands. meets_fullsize_floor c \<and> c_url c = r) \<or> fallback_url a = Inr (Some r)"
proof (cases "first_preferred PREFERRED_ORIGINAL_KEYS cands")
  case (Some c)
  from first_preferred_Some [OF Some] have "c \<in> set cands" "meets_fullsize_floor c"
    by (auto simp: pref_match_def)
  moreover from Some assms have "c_url c = r" by (simp add: pick_from_candidates_def)
  ultimately show ?thesis by blast
next
  case None
  show ?thesis
  proof (cases "filter meets_fullsize_floor cands")
    case Nil
    with None assms show ?thesis by (simp add: pick_from_candidates_def)
  next
    case (Cons b bs)
    have "max_from b bs \<in> set (filter meets_fullsize_floor cands)"
      using max_from_mem [of b bs] Cons by simp
    moreover from None Cons assms have "c_url (max_from b bs) = r"
      by (simp add: pick_from_candidates_def)
    ultimately show ?thesis by auto
  qed
qed

section \<open>The selector: thumbnail-like derivatives\<close>

text \<open>
  Claim C1, as amended. A thumbnail-like derivative never becomes a candidate, whatever
  width, height or size it declares. The selector can still return a URL equal to that
  derivative's resolved URL, but only on account of another source: a derivative of the
  same asset that carries no hint in any of its four signals, resolves to the same URL and
  meets the floor, or the asset's fallback path, itself free of hints, resolving to it.
\<close>

theorem thumbnail_like_never_candidate:
  assumes "derivatives a = Derivs ds" and "(k, DDict v) \<in> set ds"
    and "full_url (url_location a) (deriv_url v) = Inr u" and "thumbnail_like k v u"
  shows "(\<forall>c. candidate_from_derivative k v (url_location a) \<noteq> Inr (Some c)) \<and>
         (pick_best_download_url_from_asset a = Inr (Some u) \<longrightarrow>
            (\<exists>k' v' c. (k', DDict v') \<in> set ds \<and>
               candidate_from_derivative k' v' (url_location a) = Inr (Some c) \<and>
               c_url c = u \<and> meets_fullsize_floor c \<and> \<not> thumbnail_like k' v' u) \<or>
            (\<exists>p. url_path a = PStr p \<and> \<not> has_hint (lower p) \<and>
               full_url (url_location a) (PStr p) = Inr u))"
proof (intro conjI allI impI)
  fix c show "candidate_from_derivative k v (url_location a) \<noteq> Inr (Some c)"
    using assms(3,4) by (rule thumbnail_like_no_candidate)
next
  assume pick: "pick_best_download_url_from_asset a = Inr (Some u)"
  then obtain cands where cands: "collect_candidates ds (url_location a) = Inr cands"
    and p: "pick_from_candidates a cands = Inr (Some u)"
    using assms(1)
    by (auto simp: pick_best_download_url_from_asset_def asset_candidates_def split: sum.splits)
  from pick_from_candidates_SomeD [OF p] show
    "(\<exists>k' v' c. (k', DDict v') \<in> set ds \<and>
        candidate_from_derivative k' v' (url_location a) = Inr (Some c) \<and>
        c_url c = u \<and> meets_fullsize_floor c \<and> \<not> thumbnail_like k' v' u) \<or>
     (\<exists>p. url_path a = PStr p \<and> \<not> has_hint (lower p) \<and>
        full_url (url_location a) (PStr p) = Inr u)"
  proof
    assume "\<exists>c\<in>set cands. meets_fullsize_floor c \<and> c_url c = u"
    then obtain c where c: "c \<in> set cands" "meets_fullsize_floor c" "c_url c = u" by blast
    from collect_candidates_mem [OF cands c(1)] obtain k' v' where
      kv: "(k', DDict v') \<in> set ds"
          "candidate_from_derivative k' v' (url_location a) = Inr (Some c)" by blast
    from candidate_SomeD [OF kv(2)] c(3) have "\<not> thumbnail_like k' v' u" by simp
    with kv c show ?thesis by blast
  next
    assume "fallback_url a = Inr (Some u)"
    from fallback_url_SomeD [OF this] show ?thesis by blast
  qed
qed

text \<open>
  The theorem at an asset whose two derivatives share one URL: the one keyed
  \<open>thumb_4032x3024\<close> yields no candidate, and the URL is returned for the other.
\<close>

theorem thumbnail_like_never_candidate_witness:
  "thumbnail_like ''thumb_4032x3024''
     [(''url'', PStr ''https://h.example/B/a.jpg''), (''width'', PInt 4032), (''height'', PInt 3024)]
     ''https://h.example/B/a.jpg'' \<and>
   pick_best_download_url_from_asset shared_url_asset = Inr (Some ''https://h.example/B/a.jpg'') \<and>
   (\<forall>c. candidate_from_derivative ''thumb_4032x3024''
          [(''url'', PStr ''https://h.example/B/a.jpg''), (''width'', PInt 4032), (''height'', PInt 3024)]
          PNone \<noteq> Inr (Some c)) \<and>
   (\<exists>k' v' c. (k', DDict v') \<in> set [(''thumb_4032x3024'', DDict [(''url'', PStr ''https://h.example/B/a.jpg''),
                                     (''width'', PInt 4032), (''height'', PInt 3024)]),
         (''R4032x3024'', DDict [(''url'', PStr ''https://h.example/B/a.jpg'')])] \<and>
      candidate_from_derivative k' v' PNone = Inr (Some c) \<and>
      c_url c = ''https://h.example/B/a.jpg'' \<and> meets_fullsize_floor c \<and>
      \<not> thumbnail_like k' v' ''https://h.example/B/a.jpg'')"
proof -
  let ?v = "[(''url'', PStr ''https://h.example/B/a.jpg''), (''width'', PInt 4032), (''height'', PInt 3024)]"
  let ?ds = "[(''thumb_4032x3024'', DDict ?v),
              (''R4032x3024'', DDict [(''url'', PStr ''https://h.example/B/a.jpg'')])]"
  have loc: "url_location shared_url_asset = PNone" by (simp add: shared_url_asset_def)
  have h1: "derivatives shared_url_asset = Derivs ?ds" by (simp add: shared_url_asset_def)
  have h2: "(''thumb_4032x3024'', DDict ?v) \<in> set ?ds" by simp
  have h3: "full_url (url_location shared_url_asset) (deriv_url ?v) = Inr ''https://h.example/B/a.jpg''"
    by code_simp
  have h4: "thumbnail_like ''thumb_4032x3024'' ?v ''https://h.example/B/a.jpg''" by code_simp
  have h5: "pick_best_download_url_from_asset shared_url_asset = Inr (Some ''https://h.example/B/a.jpg'')"
    by code_simp
  have h6: "url_path shared_url_asset = PNone" by (simp add: shared_url_asset_def)
  from thumbnail_like_never_candidate [OF h1 h2 h3 h4] h4 h5 h6 show ?thesis unfolding loc by simp
qed

text \<open>
  Claim C1 as stated fails: here the only derivative is thumbnail-like by its key and
  declares 4032 by 3024 pixels; it is rejected, and the selector returns its resolved URL
  all the same, through the asset's fallback path.
\<close>

theorem thumbnail_url_returned_by_fallback:
  "derivatives fallback_same_url_asset =
     Derivs [(''thumb_4032x3024'', DDict [(''url'', PStr ''/B/a.jpg''), (''width'', PInt 4032),
                                         (''height'', PInt 3024), (''fileSize'', PInt 2000000)])] \<and>
   has_hint (lower ''thumb_4032x3024'') \<and>
   full_url (url_location fallback_same_url_asset)
     (deriv_url [(''url'', PStr ''/B/a.jpg''), (''width'', PInt 4032),
                 (''height'', PInt 3024), (''fileSize'', PInt 2000000)]) =
     Inr ''https://h.example/B/a.jpg'' \<and>
   pick_best_download_url_from_asset fallback_same_url_asset = Inr (Some ''https://h.example/B/a.jpg'')"
  by code_simp

section \<open>The selector: the full-size floor\<close>

text \<open>
  Claim C5. A candidate whose URL does not end in a video extension (compared in lower
  case) is accepted by the floor only if its long edge is at least 2000 and its size is 0
  or at least 307200; a candidate whose URL ends in a video extension is accepted exactly
  when its size is 0 or at least 307200.
\<close>

theorem fullsize_floor_accepts:
  "MIN_LONG_EDGE = 2000 \<and> MIN_FILESIZE_BYTES = 307200 \<and>
   (\<not> is_video c \<longrightarrow> meets_fullsize_floor c \<longrightarrow>
      MIN_LONG_EDGE \<le> max (c_w c) (c_h c) \<and>
      (c_size c = 0 \<or> MIN_FILESIZE_BYTES \<le> c_size c)) \<and>
   (is_video c \<longrightarrow>
      meets_fullsize_floor c = (c_size c = 0 \<or> MIN_FILESIZE_BYTES \<le> c_size c))"
  by (auto simp: meets_fullsize_floor_def Let_def MIN_LONG_EDGE_def MIN_FILESIZE_BYTES_def)

text \<open>A photo of unknown size, a video at the size threshold, and a video one byte under it.\<close>

theorem fullsize_floor_accepts_witness:
  "\<not> is_video \<lparr>c_url = ''https://h.example/B/a.JPG'', c_w = 4032, c_h = 3024, c_key = ''R4032x3024'', c_size = 0\<rparr> \<and>
   meets_fullsize_floor \<lparr>c_url = ''https://h.example/B/a.JPG'', c_w = 4032, c_h = 3024, c_key = ''R4032x3024'', c_size = 0\<rparr> \<and>
   is_video \<lparr>c_url = ''https://h.example/B/clip.MOV'', c_w = 0, c_h = 0, c_key = ''720p'', c_size = 307200\<rparr> \<and>
   meets_fullsize_floor \<lparr>c_url = ''https://h.example/B/clip.MOV'', c_w = 0, c_h = 0, c_key = ''720p'', c_size = 307200\<rparr> \<and>
   is_video \<lparr>c_url = ''https://h.example/B/clip.mp4'', c_w = 3840, c_h = 2160, c_key = ''2160p'', c_size = 307199\<rparr> \<and>
   \<not> meets_fullsize_floor \<lparr>c_url = ''https://h.example/B/clip.mp4'', c_w = 3840, c_h = 2160, c_key = ''2160p'', c_size = 307199\<rparr>"
proof -
  let ?p = "\<lparr>c_url = ''https://h.example/B/a.JPG'', c_w = 4032, c_h = 3024, c_key = ''R4032x3024'', c_size = 0\<rparr>"
  let ?v = "\<lparr>c_url = ''https://h.example/B/clip.MOV'', c_w = 0, c_h = 0, c_key = ''720p'', c_size = 307200\<rparr>"
  let ?s = "\<lparr>c_url = ''https://h.example/B/clip.mp4'', c_w = 3840, c_h = 2160, c_key = ''2160p'', c_size = 307199\<rparr>"
  have p: "\<not> is_video ?p" by code_simp
  have v: "is_video ?v" by code_simp
  have s: "is_video ?s" by code_simp
  have "meets_fullsize_floor ?p" by code_simp
  moreover have "meets_fullsize_floor ?v" using fullsize_floor_accepts [of ?v] v by (simp add: MIN_FILESIZE_BYTES_def)
  moreover have "\<not> meets_fullsize_floor ?s" using fullsize_floor_accepts [of ?s] s by (simp add: MIN_FILESIZE_BYTES_def)
  ultimately show ?thesis using p v s by blast
qed

section \<open>The selector: preferred originals\<close>

text \<open>
  Claim C4. When some candidate of the asset has a preferred-original key (compared in
  lower case) and meets the floor, the selector returns the URL of such a candidate: the
  one whose key comes first in the preference list, and among those the first in catalog
  order. No condition is put on the other candidates, so a larger non-preferred candidate
  does not change the choice.
\<close>

theorem preferred_original_beats_area:
  assumes "asset_candidates a = Inr cands"
    and "\<exists>c\<in>set cands. lower (c_key c) \<in> set PREFERRED_ORIGINAL_KEYS \<and> meets_fullsize_floor c"
  shows "\<exists>qs p rs cs1 c cs2.
           PREFERRED_ORIGINAL_KEYS = qs @ p # rs \<and> cands = cs1 @ c # cs2 \<and>
           pick_best_download_url_from_asset a = Inr (Some (c_url c)) \<and>
           lower (c_key c) = p \<and> meets_fullsize_floor c \<and>
           (\<forall>q\<in>set qs. \<forall>c'\<in>set cands. \<not> (lower (c_key c') = q \<and> meets_fullsize_floor c')) \<and>
           (\<forall>c'\<in>set cs1. \<not> (lower (c_key c') = p \<and> meets_fullsize_floor c'))"
proof -
  have pm: "pref_match q c = (lower (c_key c) = q \<and> meets_fullsize_floor c)"
    if "q \<in> set PREFERRED_ORIGINAL_KEYS" for q c
    using that empty_not_preferred by (auto simp: pref_match_def lower_def)
  from assms(2) obtain c0 where c0: "c0 \<in> set cands"
    "lower (c_key c0) \<in> set PREFERRED_ORIGINAL_KEYS" "meets_fullsize_floor c0" by blast
  then have "pref_match (lower (c_key c0)) c0" by (simp add: pm)
  with c0 have "first_preferred PREFERRED_ORIGINAL_KEYS cands \<noteq> None"
    by (auto simp: first_preferred_None)
  then obtain c where fp: "first_preferred PREFERRED_ORIGINAL_KEYS cands = Some c" by blast
  from first_preferred_Some [OF fp] obtain qs p rs cs1 cs2 where
    h: "PREFERRED_ORIGINAL_KEYS = qs @ p # rs" "cands = cs1 @ c # cs2" "pref_match p c"
       "\<forall>q\<in>set qs. \<forall>c'\<in>set cands. \<not> pref_match q c'" "\<forall>c'\<in>set cs1. \<not> pref_match p c'"
    by blast
  have mem: "p \<in> set PREFERRED_ORIGINAL_KEYS" "\<forall>q\<in>set qs. q \<in> set PREFERRED_ORIGINAL_KEYS"
    unfolding h(1) by simp_all
  have "pick_best_download_url_from_asset a = Inr (Some (c_url c))"
    using assms(1) fp by (simp add: pick_best_download_url_from_asset_def pick_from_candidates_def)
  moreover have "lower (c_key c) = p \<and> meets_fullsize_floor c" using h(3) mem(1) by (simp add: pm)
  moreover have "\<forall>q\<in>set qs. \<forall>c'\<in>set cands. \<not> (lower (c_key c') = q \<and> meets_fullsize_floor c')"
    using h(4) mem(2) by (simp add: pm)
  moreover have "\<forall>c'\<in>set cs1. \<not> (lower (c_key c') = p \<and> meets_fullsize_floor c')"
    using h(5) mem(1) by (simp add: pm)
  ultimately show ?thesis using h(1,2) by blast
qed

text \<open>
  An asset offering an 8000 by 6000 rendition under a non-preferred key before its
  \<open>resOriginal\<close> of 4032 by 3024: the original is returned.
\<close>

theorem preferred_original_beats_area_witness:
  "asset_candidates preferred_vs_larger_asset =
     Inr [\<lparr>c_url = ''https://h.example/B/huge.jpg'', c_w = 8000, c_h = 6000, c_key = ''R8000x6000'', c_size = 9000000\<rparr>,
          \<lparr>c_url = ''https://h.example/B/orig.jpg'', c_w = 4032, c_h = 3024, c_key = ''resOriginal'', c_size = 2000000\<rparr>] \<and>
   meets_fullsize_floor \<lparr>c_url = ''https://h.example/B/huge.jpg'', c_w = 8000, c_h = 6000, c_key = ''R8000x6000'', c_size = 9000000\<rparr> \<and>
   pick_best_download_url_from_asset preferred_vs_larger_asset = Inr (Some ''https://h.example/B/orig.jpg'')"
proof -
  let ?c1 = "\<lparr>c_url = ''https://h.example/B/huge.jpg'', c_w = 8000, c_h = 6000, c_key = ''R8000x6000'', c_size = 9000000\<rparr>"
  let ?c2 = "\<lparr>c_url = ''https://h.example/B/orig.jpg'', c_w = 4032, c_h = 3024, c_key = ''resOriginal'', c_size = 2000000\<rparr>"
  have h1: "asset_candidates preferred_vs_larger_asset = Inr [?c1, ?c2]" by code_simp
  have k1: "lower (c_key ?c1) \<notin> set PREFERRED_ORIGINAL_KEYS" by code_simp
  have k2: "lower (c_key ?c2) \<in> set PREFERRED_ORIGINAL_KEYS" by code_simp
  have f1: "meets_fullsize_floor ?c1" by code_simp
  have f2: "meets_fullsize_floor ?c2" by code_simp
  have h2: "\<exists>c\<in>set [?c1, ?c2]. lower (c_key c) \<in> set PREFERRED_ORIGINAL_KEYS \<and> meets_fullsize_floor c"
    using k2 f2 by simp
  from preferred_original_beats_area [OF h1 h2] obtain qs p rs cs1 c cs2 where
    c: "PREFERRED_ORIGINAL_KEYS = qs @ p # rs" "[?c1, ?c2] = cs1 @ c # cs2"
       "pick_best_download_url_from_asset preferred_vs_larger_asset = Inr (Some (c_url c))"
       "lower (c_key c) = p"
    by blast
  have "c \<in> set (cs1 @ c # cs2)" by simp
  then have "c \<in> set [?c1, ?c2]" unfolding c(2) [symmetric] .
  then have cases: "c = ?c1 \<or> c = ?c2" by simp
  have pref: "lower (c_key c) \<in> set PREFERRED_ORIGINAL_KEYS" unfolding c(1) c(4) by simp
  have "c \<noteq> ?c1" using pref k1 by blast
  with cases have "c = ?c2" by blast
  with c(3) h1 f1 show ?thesis by simp
qed

section \<open>The selector: largest area, then size\<close>

text \<open>
  Claim C8. When no candidate with a preferred-original key meets the floor and some
  candidate meets it, the selector returns the URL of a candidate meeting the floor whose
  pair of area and size is maximal in lexicographic order: every other candidate meeting
  the floor has a smaller area, or the same area and a size not larger.
\<close>

theorem largest_area_then_size:
  assumes "asset_candidates a = Inr cands"
    and "\<forall>c\<in>set cands. \<not> (lower (c_key c) \<in> set PREFERRED_ORIGINAL_KEYS \<and> meets_fullsize_floor c)"
    and "\<exists>c\<in>set cands. meets_fullsize_floor c"
  shows "\<exists>best\<in>set cands.
           pick_best_download_url_from_asset a = Inr (Some (c_url best)) \<and>
           meets_fullsize_floor best \<and>
           (\<forall>c\<in>set cands. meets_fullsize_floor c \<longrightarrow>
              c_w c * c_h c < c_w best * c_h best \<or>
              (c_w c * c_h c = c_w best * c_h best \<and> c_size c \<le> c_size best))"
proof -
  have "first_preferred PREFERRED_ORIGINAL_KEYS cands = None"
    using assms(2) by (auto simp: first_preferred_None pref_match_def)
  moreover from assms(3) obtain b bs where ok: "filter meets_fullsize_floor cands = b # bs"
    by (cases "filter meets_fullsize_floor cands") (auto simp: filter_empty_conv)
  ultimately have pick: "pick_best_download_url_from_asset a = Inr (Some (c_url (max_from b bs)))"
    using assms(1) by (simp add: pick_best_download_url_from_asset_def pick_from_candidates_def)
  let ?best = "max_from b bs"
  have "?best \<in> set (filter meets_fullsize_floor cands)"
    using max_from_mem [of b bs] ok by simp
  then have best: "?best \<in> set cands" "meets_fullsize_floor ?best" by simp_all
  have "c_w c * c_h c < c_w ?best * c_h ?best \<or>
        (c_w c * c_h c = c_w ?best * c_h ?best \<and> c_size c \<le> c_size ?best)"
    if "c \<in> set cands" "meets_fullsize_floor c" for c
  proof -
    from that have "c \<in> set (b # bs)" using ok [symmetric] by simp
    from max_from_max [OF this] show ?thesis
      by (auto simp: key_less_def area_size_def)
  qed
  with pick best show ?thesis by blast
qed

text \<open>
  The scenario of the specification: 4000 by 3000 at 1000000 bytes against 4032 by 3024
  at 500000 bytes; the larger area wins although its size is smaller.
\<close>

theorem largest_area_then_size_witness:
  "asset_candidates area_vs_size_asset =
     Inr [\<lparr>c_url = ''https://h.example/B/a4000.jpg'', c_w = 4000, c_h = 3000, c_key = ''R4000x3000'', c_size = 1000000\<rparr>,
          \<lparr>c_url = ''https://h.example/B/a4032.jpg'', c_w = 4032, c_h = 3024, c_key = ''R4032x3024'', c_size = 500000\<rparr>] \<and>
   meets_fullsize_floor \<lparr>c_url = ''https://h.example/B/a4000.jpg'', c_w = 4000, c_h = 3000, c_key = ''R4000x3000'', c_size = 1000000\<rparr> \<and>
   meets_fullsize_floor \<lparr>c_url = ''https://h.example/B/a4032.jpg'', c_w = 4032, c_h = 3024, c_key = ''R4032x3024'', c_size = 500000\<rparr> \<and>
   pick_best_download_url_from_asset area_vs_size_asset = Inr (Some ''https://h.example/B/a4032.jpg'')"
proof -
  let ?c1 = "\<lparr>c_url = ''https://h.example/B/a4000.jpg'', c_w = 4000, c_h = 3000, c_key = ''R4000x3000'', c_size = 1000000\<rparr>"
  let ?c2 = "\<lparr>c_url = ''https://h.example/B/a4032.jpg'', c_w = 4032, c_h = 3024, c_key = ''R4032x3024'', c_size = 500000\<rparr>"
  have h1: "asset_candidates area_vs_size_asset = Inr [?c1, ?c2]" by code_simp
  have k1: "lower (c_key ?c1) \<notin> set PREFERRED_ORIGINAL_KEYS" by code_simp
  have k2: "lower (c_key ?c2) \<notin> set PREFERRED_ORIGINAL_KEYS" by code_simp
  have f1: "meets_fullsize_floor ?c1" by code_simp
  have f2: "meets_fullsize_floor ?c2" by code_simp
  have h2: "\<forall>c\<in>set [?c1, ?c2]. \<not> (lower (c_key c) \<in> set PREFERRED_ORIGINAL_KEYS \<and> meets_fullsize_floor c)"
    using k1 k2 by simp
  have h3: "\<exists>c\<in>set [?c1, ?c2]. meets_fullsize_floor c" using f1 by simp
  from largest_area_then_size [OF h1 h2 h3] obtain best where
    b: "best \<in> set [?c1, ?c2]"
       "pick_best_download_url_from_asset area_vs_size_asset = Inr (Some (c_url best))"
       "\<forall>c\<in>set [?c1, ?c2]. meets_fullsize_floor c \<longrightarrow>
              c_w c * c_h c < c_w best * c_h best \<or>
              (c_w c * c_h c = c_w best * c_h best \<and> c_size c \<le> c_size best)"
    by blast
  from b(3) f2 have "c_w ?c2 * c_h ?c2 < c_w best * c_h best \<or>
              (c_w ?c2 * c_h ?c2 = c_w best * c_h best \<and> c_size ?c2 \<le> c_size best)" by simp
  with b(1) have "best = ?c2" by auto
  with b(2) h1 f1 f2 show ?thesis by simp
qed

section \<open>Download: auxiliary facts\<close>

lemma dest_dir_log [simp]: "dest_dir (log e w) = dest_dir w"
  by (simp add: log_def)

lemma outside_log [simp]: "outside (log e w) = outside w"
  by (simp add: log_def)

lemma events_log [simp]: "events (log e w) = events w @ [e]"
  by (simp add: log_def)

lemma dest_dir_makedirs: "dest_dir (makedirs w) = Some (case dest_dir w of None \<Rightarrow> [] | Some d \<Rightarrow> d)"
  by (simp add: makedirs_def split: option.splits)

lemma events_makedirs [simp]: "events (makedirs w) = events w"
  by (simp add: makedirs_def split: option.splits)

lemma makedirs_idem: "dest_dir w = Some d \<Longrightarrow> makedirs w = w"
  by (simp add: makedirs_def)

lemma part_not_dir_name: "\<not> is_dir_name (f @ ''.part'')"
  by (auto simp: is_dir_name_def append_eq_Cons_conv)

text \<open>What a successful removal does to the directory.\<close>

lemma fs_remove_InrD:
  "fs_remove n w = Inr w' \<Longrightarrow>
   \<exists>d. dest_dir w = Some d \<and> \<not> has_nul n \<and> \<not> is_dir_at d n \<and> map_of d n \<noteq> None \<and>
       w' = w\<lparr>dest_dir := Some (AList.delete n d)\<rparr>"
  by (auto simp: fs_remove_def split: if_splits option.splits)

lemma set_delete_subset: "set (AList.delete n d) \<subseteq> set d"
  by (auto simp: AList.delete_eq)

lemma set_update_cases: "e \<in> set (AList.update n x d) \<Longrightarrow> e = (n, x) \<or> e \<in> set d"
  by (induction d) (auto split: if_splits)

lemma plain_names_delete: "plain_names d \<Longrightarrow> plain_names (AList.delete n d)"
  using set_delete_subset [of n d]
  by (auto simp: plain_names_def distinct_delete list_all_iff)

lemma plain_names_update:
  "plain_names d \<Longrightarrow> \<not> has_nul n \<Longrightarrow> \<not> is_dir_name n \<Longrightarrow> plain_names (AList.update n x d)"
  by (auto simp: plain_names_def distinct_update list_all_iff dest!: set_update_cases)

lemma plain_file_entry:
  assumes "plain_names d" "(n, x) \<in> set d"
  shows "map_of d n = Some x" "\<not> has_nul n" "\<not> is_dir_name n"
  using assms by (auto simp: plain_names_def list_all_iff)


lemma not_dir_at_not_dir_name: "\<not> is_dir_at d n \<Longrightarrow> \<not> is_dir_name n"
  by (simp add: is_dir_at_def)

lemma has_nul_part [simp]: "has_nul (f @ ''.part'') = has_nul f"
  by (auto simp: has_nul_def)

lemma is_dir_at_update_other:
  "m \<noteq> n \<Longrightarrow> is_dir_at (AList.update m x d) n = is_dir_at d n"
  by (simp add: is_dir_at_def update_conv')

section \<open>The index path: auxiliary facts\<close>

lemma split_slash_nonempty: "split_slash s \<noteq> []"
  by (induction s) auto

lemma split_slash_chars: "x \<in> set (split_slash s) \<Longrightarrow> set x \<subseteq> set s"
proof (induction s arbitrary: x)
  case Nil
  then show ?case by simp
next
  case (Cons c cs)
  show ?case
  proof (cases "c = CHR ''/''")
    case True
    with Cons show ?thesis by auto
  next
    case False
    obtain p ps where ps: "split_slash cs = p # ps"
      using split_slash_nonempty [of cs] by (cases "split_slash cs") auto
    with Cons.prems False have "x = c # p \<or> x \<in> set ps" by simp
    then show ?thesis
    proof
      assume "x = c # p"
      moreover have "set p \<subseteq> set cs" using Cons.IH [of p] ps by simp
      ultimately show ?thesis by auto
    next
      assume "x \<in> set ps"
      then have "set x \<subseteq> set cs" using Cons.IH [of x] ps by simp
      then show ?thesis by auto
    qed
  qed
qed

text \<open>The entry a walk ends at is a component of the path, the dot, or where it started.\<close>

lemma walk_AtEntry:
  "walk d inside xs = AtEntry m \<Longrightarrow> m \<in> set xs \<or> m = ''.'' \<or> inside = Some m"
  by (induction d inside xs rule: walk.induct)
     (auto split: if_splits option.splits node.splits)

lemma walk_Elsewhere_parent:
  "walk d inside xs = Elsewhere (Some sub) \<Longrightarrow>
   inside = Some sub \<or> (\<exists>t. map_of d sub = Some (Dir t))"
  by (induction d inside xs rule: walk.induct)
     (auto split: if_splits option.splits node.splits)

lemma walk_same:
  "\<forall>x t. map_of d x = Some (Dir t) \<longrightarrow> (\<exists>t'. map_of d' x = Some (Dir t')) \<Longrightarrow>
   walk d inside xs = p \<Longrightarrow> \<forall>e. p \<noteq> NoPath e \<Longrightarrow> walk d' inside xs = p"
proof (induction d inside xs arbitrary: p rule: walk.induct)
  case (1 d)
  then show ?case by simp
next
  case (2 d sub)
  then show ?case by simp
next
  case (3 d inside x xs)
  note dirs = "3.prems"(1)
  note res = "3.prems"(2,3)
  show ?case
  proof (cases "x = [] \<or> x = ''.''")
    case True
    with 3 show ?thesis by simp
  next
    case nd: False
    show ?thesis
    proof (cases "x = ''..''")
      case True
      with nd 3 show ?thesis by (cases inside) auto
    next
      case nu: False
      show ?thesis
      proof (cases inside)
        case (Some sub)
        with nd nu res show ?thesis by auto
      next
        case None
        show ?thesis
        proof (cases "xs = []")
          case True
          with nd nu None res show ?thesis by auto
        next
          case False
          with nd nu None res obtain t where t: "map_of d x = Some (Dir t)"
            by (auto split: option.splits node.splits)
          from dirs t obtain t' where t': "map_of d' x = Some (Dir t')" by blast
          from "3.IH"(3) [OF nd nu None False t refl dirs] res nd nu None False t
          have "walk d' (Some x) xs = p" by simp
          with nd nu None False t' show ?thesis by simp
        qed
      qed
    qed
  qed
qed

lemma events_store [simp]: "events (store n t c w) = events w"
  by (simp add: store_def Let_def split: place.splits)

lemma route_same:
  assumes "\<forall>x t. map_of d x = Some (Dir t) \<longrightarrow> (\<exists>t'. map_of d' x = Some (Dir t'))"
    and "route n (Some d) = p" "\<forall>e. p \<noteq> NoPath e"
  shows "route n (Some d') = p"
  using assms walk_same [OF assms(1), of None "split_slash n" p]
  by (auto simp: route_def split: if_splits)

lemma locate_Elsewhere:
  assumes "locate n w = Elsewhere parent"
  shows "route n (dest_dir w) = Elsewhere parent" "\<forall>m. map_of (outside w) n \<noteq> Some (LeadsTo m)"
proof -
  obtain p where p: "route n (dest_dir w) = p" by simp
  show "route n (dest_dir w) = Elsewhere parent" "\<forall>m. map_of (outside w) n \<noteq> Some (LeadsTo m)"
    using assms p
    by (cases p; cases "map_of (outside w) n"; simp add: locate_def split: option.splits outside_node.splits if_splits)+
qed

lemma locate_AtEntry:
  assumes "locate n w = AtEntry m"
  shows "route n (dest_dir w) = AtEntry m \<or>
         (\<exists>parent. route n (dest_dir w) = Elsewhere parent \<and>
                    map_of (outside w) n = Some (LeadsTo m) \<and> entry_name m)"
proof -
  obtain p where p: "route n (dest_dir w) = p" by simp
  show ?thesis
    using assms p
    by (cases p; cases "map_of (outside w) n"; simp add: locate_def split: option.splits outside_node.splits if_splits)
qed

lemma route_AtEntry_no_nul:
  assumes "route n (Some d) = AtEntry m" "\<not> has_nul n"
  shows "\<not> has_nul m"
proof (cases "CHR ''/'' \<in> set n")
  case False
  with assms show ?thesis by (auto simp: route_def split: if_splits)
next
  case True
  with assms have "walk d None (split_slash n) = AtEntry m"
    by (auto simp: route_def split: if_splits)
  from walk_AtEntry [OF this] have "m \<in> set (split_slash n) \<or> m = ''.''" by simp
  then show ?thesis
  proof
    assume "m \<in> set (split_slash n)"
    from split_slash_chars [OF this] assms(2) show ?thesis by (auto simp: has_nul_def)
  next
    assume "m = ''.''"
    then show ?thesis by (simp add: has_nul_def)
  qed
qed

lemma locate_AtEntry_no_nul:
  assumes "locate n w = AtEntry m" "\<not> has_nul n" "dest_dir w = Some d"
  shows "\<not> has_nul m"
  using locate_AtEntry [OF assms(1)] route_AtEntry_no_nul [of n d m] assms(2,3)
  by (auto simp: entry_name_def)

lemma route_Elsewhere_parent:
  assumes "route n (Some d) = Elsewhere (Some sub)"
  shows "\<exists>t. map_of d sub = Some (Dir t)"
proof -
  from assms have "walk d None (split_slash n) = Elsewhere (Some sub)"
    by (auto simp: route_def split: if_splits)
  from walk_Elsewhere_parent [OF this] show ?thesis by simp
qed

lemma find_path_cases:
  assumes "find_path n w = Inr fnd"
  obtains
    (entry) m d where "\<not> has_nul n" "dest_dir w = Some d" "locate n w = AtEntry m"
      "fnd = (if is_dir_name m then IsDir
              else case map_of d m of None \<Rightarrow> Missing | Some (Dir t) \<Rightarrow> IsDir
                   | Some (File t c) \<Rightarrow> IsFile c)"
  | (elsewhere) parent where "\<not> has_nul n" "locate n w = Elsewhere parent"
      "fnd = (case map_of (outside w) n of Some (OutFile t c) \<Rightarrow> IsFile c
              | Some OutDir \<Rightarrow> IsDir | other \<Rightarrow> Missing)"
proof -
  from assms have nn: "\<not> has_nul n" by (auto simp: find_path_def split: if_splits)
  show ?thesis
  proof (cases "locate n w")
    case (AtEntry m)
    with assms nn obtain d where d: "dest_dir w = Some d"
      by (cases "dest_dir w") (auto simp: find_path_def)
    with assms nn AtEntry have "fnd = (if is_dir_name m then IsDir
              else case map_of d m of None \<Rightarrow> Missing | Some (Dir t) \<Rightarrow> IsDir
                   | Some (File t c) \<Rightarrow> IsFile c)"
      by (simp add: find_path_def split: if_splits option.splits node.splits)
    with nn d AtEntry show ?thesis by (rule entry)
  next
    case (Elsewhere parent)
    with assms nn have "fnd = (case map_of (outside w) n of Some (OutFile t c) \<Rightarrow> IsFile c
              | Some OutDir \<Rightarrow> IsDir | other \<Rightarrow> Missing)"
      by (simp add: find_path_def split: option.splits outside_node.splits)
    with nn Elsewhere show ?thesis by (rule elsewhere)
  next
    case (NoPath e)
    with assms nn show ?thesis by (simp add: find_path_def)
  qed
qed

lemma dirs_update_file:
  assumes "\<not> (\<exists>t. map_of d m = Some (Dir t))"
  shows "\<forall>x t. map_of d x = Some (Dir t) \<longrightarrow> (\<exists>t'. map_of (AList.update m (File s c) d) x = Some (Dir t'))"
  using assms by (auto simp: update_conv')

lemma dirs_update_dir:
  "\<forall>x t. map_of d x = Some (Dir t) \<longrightarrow> (\<exists>t'. map_of (AList.update m (Dir s) d) x = Some (Dir t'))"
  by (auto simp: update_conv')

text \<open>What was put at the index path is found there.\<close>

lemma find_path_store:
  assumes "find_path n w = Inr fnd" "fnd \<noteq> IsDir"
  shows "find_path n (store n t c w) = Inr (IsFile c)"
  using assms(1)
proof (cases rule: find_path_cases)
  case (entry m d)
  from entry(4) assms(2) have nd: "\<not> is_dir_name m" "\<not> (\<exists>s. map_of d m = Some (Dir s))"
    by (auto split: if_splits)
  let ?d = "AList.update m (File t c) d"
  let ?w = "w\<lparr>dest_dir := Some ?d\<rparr>"
  have st: "store n t c w = ?w" using entry by (simp add: store_def)
  have "locate n ?w = AtEntry m"
  proof -
    from locate_AtEntry [OF entry(3)]
    show ?thesis
    proof
      assume r: "route n (dest_dir w) = AtEntry m"
      from route_same [OF dirs_update_file [OF nd(2)], of n "AtEntry m" t c] r entry(2)
      have "route n (Some ?d) = AtEntry m" by simp
      then show ?thesis by (simp add: locate_def)
    next
      assume "\<exists>parent. route n (dest_dir w) = Elsewhere parent \<and>
                    map_of (outside w) n = Some (LeadsTo m) \<and> entry_name m"
      then obtain parent where r: "route n (dest_dir w) = Elsewhere parent"
        and l: "map_of (outside w) n = Some (LeadsTo m)" "entry_name m" by blast
      from route_same [OF dirs_update_file [OF nd(2)], of n "Elsewhere parent" t c] r entry(2)
      have "route n (Some ?d) = Elsewhere parent" by simp
      with l show ?thesis by (simp add: locate_def)
    qed
  qed
  with entry(1) nd(1) show ?thesis unfolding st by (simp add: find_path_def update_conv')
next
  case (elsewhere parent)
  note r = locate_Elsewhere [OF elsewhere(2)]
  let ?o = "AList.update n (OutFile t c) (outside w)"
  obtain dd where st: "store n t c w = w\<lparr>dest_dir := dd, outside := ?o\<rparr>"
    and dd: "dd = dest_dir w \<or> (\<exists>sub. parent = Some sub \<and> dd = map_option (AList.update sub (Dir t)) (dest_dir w))"
    using elsewhere(2) by (cases parent) (auto simp: store_def Let_def)
  have "route n dd = Elsewhere parent"
  proof (cases "dd = dest_dir w")
    case True
    with r(1) show ?thesis by simp
  next
    case False
    with dd obtain sub where sub: "parent = Some sub"
      "dd = map_option (AList.update sub (Dir t)) (dest_dir w)" by blast
    show ?thesis
    proof (cases "dest_dir w")
      case None
      with sub r(1) show ?thesis by simp
    next
      case (Some d)
      from route_same [OF dirs_update_dir, of n d "Elsewhere parent" sub t] r(1) Some
      show ?thesis using sub by simp
    qed
  qed
  then have "locate n (w\<lparr>dest_dir := dd, outside := ?o\<rparr>) = Elsewhere parent"
    by (simp add: locate_def update_conv')
  with elsewhere(1) show ?thesis unfolding st by (simp add: find_path_def update_conv')
qed

lemma store_cases:
  assumes "find_path n w = Inr fnd" "fnd \<noteq> IsDir"
  obtains
    (entry) m d where "dest_dir w = Some d" "locate n w = AtEntry m" "\<not> has_nul m"
      "\<not> is_dir_at d m"
      "store n t c w = w\<lparr>dest_dir := Some (AList.update m (File t c) d)\<rparr>"
  | (elsewhere) "\<forall>m. locate n w \<noteq> AtEntry m"
      "store n t c w = w\<lparr>outside := AList.update n (OutFile t c) (outside w)\<rparr>"
  | (child) sub d s where "\<forall>m. locate n w \<noteq> AtEntry m"
      "dest_dir w = Some d" "map_of d sub = Some (Dir s)"
      "store n t c w = w\<lparr>dest_dir := Some (AList.update sub (Dir t) d),
                           outside := AList.update n (OutFile t c) (outside w)\<rparr>"
  using assms(1)
proof (cases rule: find_path_cases)
  case (entry m d)
  from entry(4) assms(2) have "\<not> is_dir_at d m"
    by (auto simp: is_dir_at_def split: if_splits option.splits node.splits)
  moreover from locate_AtEntry_no_nul [OF entry(3,1,2)] have "\<not> has_nul m" .
  moreover have "store n t c w = w\<lparr>dest_dir := Some (AList.update m (File t c) d)\<rparr>"
    using entry by (simp add: store_def)
  ultimately show ?thesis using entry(2,3) that(1) by blast
next
  case (elsewhere parent)
  then have no: "\<forall>m. locate n w \<noteq> AtEntry m" by simp
  let ?o = "AList.update n (OutFile t c) (outside w)"
  show ?thesis
  proof (cases "\<exists>sub. parent = Some sub \<and> (\<forall>t' c'. map_of (outside w) n \<noteq> Some (OutFile t' c')) \<and>
                  dest_dir w \<noteq> None")
    case False
    then have "store n t c w = w\<lparr>outside := ?o\<rparr>"
      using elsewhere(2)
      by (cases parent; cases "dest_dir w")
         (auto simp: store_def Let_def split: option.splits outside_node.splits)
    with no show ?thesis by (rule that(2))
  next
    case True
    then obtain sub d where sub: "parent = Some sub" "dest_dir w = Some d"
      "\<forall>t' c'. map_of (outside w) n \<noteq> Some (OutFile t' c')" by auto
    from locate_Elsewhere(1) [OF elsewhere(2)] sub(1,2)
    have "route n (Some d) = Elsewhere (Some sub)" by simp
    from route_Elsewhere_parent [OF this] obtain s where s: "map_of d sub = Some (Dir s)" by blast
    have "store n t c w = w\<lparr>dest_dir := Some (AList.update sub (Dir t) d), outside := ?o\<rparr>"
      using elsewhere(2) sub
      by (auto simp: store_def Let_def split: option.splits outside_node.splits)
    with no sub(2) s show ?thesis by (rule that(3))
  qed
qed

lemma store_plain:
  assumes "dest_dir w = Some d" "plain_names d" "find_path n w = Inr fnd" "fnd \<noteq> IsDir"
  shows "\<exists>d'. dest_dir (store n t c w) = Some d' \<and> plain_names d'"
  using assms(3,4)
proof (cases rule: store_cases [where t = t and c = c])
  case (entry m d0)
  with assms(1,2) show ?thesis
    by (auto intro!: plain_names_update dest: not_dir_at_not_dir_name)
next
  case elsewhere
  with assms(1,2) show ?thesis by simp
next
  case (child sub d0 s)
  with assms(1) have d0: "d0 = d" by simp
  from child(3) have "(sub, Dir s) \<in> set d" unfolding d0 by (rule map_of_SomeD)
  from plain_file_entry(2,3) [OF assms(2) this] assms(2) child(4) show ?thesis
    unfolding d0 by (auto intro!: plain_names_update)
qed

text \<open>Putting the ledger at its path leaves every other regular file of the listing alone.\<close>

lemma store_frame:
  assumes "dest_dir w = Some d" "find_path n w = Inr fnd" "fnd \<noteq> IsDir"
    and "map_of d m = Some y" "is_file y" "locate n w \<noteq> AtEntry m"
  shows "\<exists>d'. dest_dir (store n t c w) = Some d' \<and> map_of d' m = Some y"
  using assms(2,3)
proof (cases rule: store_cases [where t = t and c = c])
  case (entry m' d0)
  with assms(1,4,6) show ?thesis by (auto simp: update_conv')
next
  case elsewhere
  with assms(1,4) show ?thesis by simp
next
  case (child sub d0 s)
  with assms(1,4,5) have "sub \<noteq> m" by auto
  with child assms(1,4) show ?thesis by (auto simp: update_conv')
qed

lemma path_exists_iff:
  "path_exists n w = (\<exists>fnd. find_path n w = Inr fnd \<and> fnd \<noteq> Missing)"
  by (cases "find_path n w"; simp add: path_exists_def split: found.splits)

lemma read_index_cases:
  obtains
    (unresolved) e where "find_path n w = Inl e" "read_index n w = Inr []"
  | (missing) "find_path n w = Inr Missing" "read_index n w = Inr []"
  | (directory) "find_path n w = Inr IsDir" "read_index n w = Inl OSError"
  | (regular) c where "find_path n w = Inr (IsFile c)" "read_index n w = json_load c"
proof (cases "find_path n w")
  case (Inl e)
  then show ?thesis using unresolved by (simp add: read_index_def path_exists_def)
next
  case (Inr fnd)
  then show ?thesis using missing directory regular
    by (cases fnd) (simp_all add: read_index_def path_exists_def)
qed

lemma encodable_Entry [simp]: "encodable (Entry f s u)"
  by (simp add: encodable_def)

text \<open>The three ways the ledger update ends.\<close>

lemma update_index_cases:
  obtains
    (updated) items fnd where "read_index n w = Inr items" "find_path n w = Inr fnd" "fnd \<noteq> IsDir"
      "list_all encodable items"
      "update_index n f url x w =
         log (DebugIndexUpdated n f)
           (store n (x_clock x) (JsonArray (Entry f (x_stamp x) url # items)) w)"
  | (truncated) items fnd where "read_index n w = Inr items" "find_path n w = Inr fnd" "fnd \<noteq> IsDir"
      "\<not> list_all encodable items"
      "update_index n f url x w = log (WarnIndexFailed n) (store n (x_clock x) Truncated w)"
  | (failed) "(\<exists>e. read_index n w = Inl e) \<or> (\<exists>e. find_path n w = Inl e)"
      "update_index n f url x w = log (WarnIndexFailed n) w"
proof (cases rule: read_index_cases [of n w])
  case (unresolved e)
  then have "update_index n f url x w = log (WarnIndexFailed n) w"
    by (simp add: update_index_def write_index_def)
  with unresolved show ?thesis using failed by blast
next
  case directory
  then have "update_index n f url x w = log (WarnIndexFailed n) w"
    by (simp add: update_index_def)
  with directory show ?thesis using failed by blast
next
  case missing
  then have "update_index n f url x w =
         log (DebugIndexUpdated n f)
           (store n (x_clock x) (JsonArray (Entry f (x_stamp x) url # [])) w)"
    by (simp add: update_index_def write_index_def json_dump_def)
  with missing show ?thesis using updated [of "[]" Missing] by simp
next
  case (regular c)
  show ?thesis
  proof (cases "json_load c")
    case (Inl e)
    with regular have "update_index n f url x w = log (WarnIndexFailed n) w"
      by (simp add: update_index_def)
    with regular Inl show ?thesis using failed by auto
  next
    case (Inr items)
    show ?thesis
    proof (cases "list_all encodable items")
      case True
      with regular Inr have "update_index n f url x w =
         log (DebugIndexUpdated n f)
           (store n (x_clock x) (JsonArray (Entry f (x_stamp x) url # items)) w)"
        by (simp add: update_index_def write_index_def json_dump_def)
      with regular Inr True show ?thesis using updated [of items "IsFile c"] by simp
    next
      case False
      with regular Inr have "update_index n f url x w =
         log (WarnIndexFailed n) (store n (x_clock x) Truncated w)"
        by (simp add: update_index_def write_index_def json_dump_def)
      with regular Inr False show ?thesis using truncated [of items "IsFile c"] by simp
    qed
  qed
qed

lemma locate_same_files:
  "dest_dir w' = dest_dir w \<Longrightarrow> outside w' = outside w \<Longrightarrow> locate n w' = locate n w"
  by (cases "route n (dest_dir w)") (simp_all add: locate_def)

lemma find_path_same_files:
  "dest_dir w' = dest_dir w \<Longrightarrow> outside w' = outside w \<Longrightarrow> find_path n w' = find_path n w"
  using locate_same_files [of w' w n]
  by (cases "locate n w") (simp_all add: find_path_def)

lemma locate_log [simp]: "locate n (log e w) = locate n w"
  by (rule locate_same_files) simp_all

lemma find_path_log [simp]: "find_path n (log e w) = find_path n w"
  by (rule find_path_same_files) simp_all

lemma read_index_log [simp]: "read_index n (log e w) = read_index n w"
  by (simp add: read_index_def path_exists_def)

lemma read_index_found:
  "find_path n w = Inr (IsFile c) \<Longrightarrow> read_index n w = json_load c"
  by (simp add: read_index_def path_exists_def)

text \<open>An index filename without a slash names an entry of the listing.\<close>

lemma locate_plain:
  assumes "CHR ''/'' \<notin> set n" "dest_dir w = Some d"
  shows "locate n w = AtEntry n"
proof -
  from assms(1) have "\<not> prefix ''/'' n" by (auto simp: prefix_def)
  with assms show ?thesis by (simp add: locate_def route_def)
qed

lemma find_path_plain:
  assumes "CHR ''/'' \<notin> set n" "\<not> has_nul n" "dest_dir w = Some d"
  shows "find_path n w =
           Inr (if is_dir_name n then IsDir
                else case map_of d n of None \<Rightarrow> Missing | Some (Dir t) \<Rightarrow> IsDir
                     | Some (File t c) \<Rightarrow> IsFile c)"
  using assms locate_plain [OF assms(1,3)]
  by (simp add: find_path_def split: option.splits node.splits)

lemma store_plain_name:
  assumes "CHR ''/'' \<notin> set n" "dest_dir w = Some d"
  shows "store n t c w = w\<lparr>dest_dir := Some (AList.update n (File t c) d)\<rparr>"
  using assms locate_plain [OF assms] by (simp add: store_def)

lemma update_index_plain_name:
  assumes "CHR ''/'' \<notin> set n" "\<not> has_nul n" "\<not> is_dir_name n" "dest_dir w = Some d"
    and "map_of d n = Some (File s c)" "json_load c = Inr items" "list_all encodable items"
  shows "update_index n f url x w =
           log (DebugIndexUpdated n f)
             (w\<lparr>dest_dir := Some (AList.update n
                   (File (x_clock x) (JsonArray (Entry f (x_stamp x) url # items))) d)\<rparr>)"
proof -
  from find_path_plain [OF assms(1,2,4)] assms(3,5)
  have fp: "find_path n w = Inr (IsFile c)" by simp
  then have "read_index n w = Inr items"
    using assms(6) by (simp add: read_index_def path_exists_def)
  with fp assms(7) show ?thesis
    by (simp add: update_index_def write_index_def json_dump_def store_plain_name [OF assms(1,4)])
qed

section \<open>Download: the paths of one call\<close>

lemma download_file_rejected_by_probe:
  assumes "head_rejects (x_head x) = Some cl"
  shows "download_file x url idx w =
           (Inr False, log (WarnTooSmallDeclared cl url) (log (HeadRequest url) (makedirs w)))"
  using assms by (simp add: download_file_def)

lemma download_file_transfer:
  assumes "head_rejects (x_head x) = None"
  shows "download_file x url idx w = transfer url idx x (started url w)"
  using assms by (simp add: download_file_def started_def)

lemma transfer_request_failed:
  assumes "x_get x = GetFailed \<or> (\<exists>r. x_get x = GetResponse r \<and> \<not> r_ok r)"
  shows "transfer url idx x w = (Inr False, log (ErrDownloadFailed url) w)"
  using assms by (auto simp: transfer_def)

lemma transfer_open_fails:
  assumes "x_get x = GetResponse r" "r_ok r" "dest_dir w = Some d"
    and "has_nul (target_filename r url) \<or> is_dir_at d (target_filename r url @ ''.part'')"
  shows "\<exists>e. transfer url idx x w = (Inl e, w)"
  using assms by (auto simp: transfer_def fs_write_def)

lemma transfer_stream_breaks:
  assumes "x_get x = GetResponse r" "r_ok r" "dest_dir w = Some d"
    and "\<not> has_nul (target_filename r url)" "\<not> is_dir_at d (target_filename r url @ ''.part'')"
    and "r_stream_fails r"
  shows "transfer url idx x w =
           (Inr False, log (ErrDownloadFailed url)
              (w\<lparr>dest_dir := Some (AList.update (target_filename r url @ ''.part'')
                                     (File (x_clock x) (body r)) d)\<rparr>))"
  using assms by (simp add: transfer_def fs_write_def)

lemma transfer_undersized:
  assumes "x_get x = GetResponse r" "r_ok r" "dest_dir w = Some d"
    and "\<not> has_nul (target_filename r url)" "\<not> is_dir_at d (target_filename r url @ ''.part'')"
    and "\<not> r_stream_fails r" "int (length (streamed r)) < MIN_FILESIZE_BYTES"
  shows "transfer url idx x w =
           (Inr False, log (WarnTooSmallBody (int (length (streamed r))) url)
              (w\<lparr>dest_dir := Some (AList.delete (target_filename r url @ ''.part'') d)\<rparr>))"
proof -
  let ?tmp = "target_filename r url @ ''.part''"
  let ?d1 = "AList.update ?tmp (File (x_clock x) (body r)) d"
  have "\<not> is_dir_at ?d1 ?tmp"
    by (simp add: is_dir_at_def update_conv' part_not_dir_name)
  moreover have "map_of ?d1 ?tmp = Some (File (x_clock x) (body r))"
    by (simp add: update_conv')
  ultimately show ?thesis
    using assms
    by (simp add: transfer_def fs_write_def promote_def Let_def fs_remove_def delete_update_same)
qed

lemma transfer_final_is_dir:
  assumes "x_get x = GetResponse r" "r_ok r" "dest_dir w = Some d"
    and "\<not> has_nul (target_filename r url)" "\<not> is_dir_at d (target_filename r url @ ''.part'')"
    and "\<not> r_stream_fails r" "MIN_FILESIZE_BYTES \<le> int (length (streamed r))"
    and "is_dir_at d (target_filename r url)"
  shows "transfer url idx x w =
           (Inl OSError,
            w\<lparr>dest_dir := Some (AList.update (target_filename r url @ ''.part'')
                                   (File (x_clock x) (body r)) d)\<rparr>)"
proof -
  let ?f = "target_filename r url"
  let ?tmp = "?f @ ''.part''"
  let ?d1 = "AList.update ?tmp (File (x_clock x) (body r)) d"
  have "is_dir_at ?d1 ?f" using assms(8) by (simp add: is_dir_at_update_other)
  moreover have "map_of ?d1 ?tmp = Some (File (x_clock x) (body r))"
    by (simp add: update_conv')
  ultimately show ?thesis
    using assms
    by (simp add: transfer_def fs_write_def promote_def Let_def fs_replace_def)
qed

lemma transfer_accepted:
  assumes "x_get x = GetResponse r" "r_ok r" "dest_dir w = Some d"
    and "\<not> has_nul (target_filename r url)" "\<not> is_dir_at d (target_filename r url @ ''.part'')"
    and "\<not> r_stream_fails r" "MIN_FILESIZE_BYTES \<le> int (length (streamed r))"
    and "\<not> is_dir_at d (target_filename r url)"
  shows "transfer url idx x w =
           (Inr True,
            record_download idx (target_filename r url) url x
              (log (InfoDownloaded (target_filename r url) (int (length (streamed r))))
                 (w\<lparr>dest_dir := Some (AList.update (target_filename r url)
                                        (File (x_clock x) (body r))
                                        (AList.delete (target_filename r url @ ''.part'') d))\<rparr>)))"
proof -
  let ?f = "target_filename r url"
  let ?tmp = "?f @ ''.part''"
  let ?d1 = "AList.update ?tmp (File (x_clock x) (body r)) d"
  have "\<not> is_dir_at ?d1 ?f" using assms(8) by (simp add: is_dir_at_update_other)
  moreover have "map_of ?d1 ?tmp = Some (File (x_clock x) (body r))"
    by (simp add: update_conv')
  ultimately show ?thesis
    using assms
    by (simp add: transfer_def fs_write_def promote_def Let_def fs_replace_def
                  delete_update_same)
qed

lemma dest_dir_started: "dest_dir (started url w) = Some (dir_of w)"
  by (simp add: started_def dest_dir_makedirs dir_of_def)

lemma events_started: "events (started url w) = events w @ [HeadRequest url, GetRequest url]"
  by (simp add: started_def)

lemma events_update_index: "\<exists>es. events (update_index n f url x w) = events w @ es"
  by (cases rule: update_index_cases [of n w f url x]) simp_all

lemma events_record_download: "\<exists>es. events (record_download idx f url x w) = events w @ es"
  using events_update_index [of n f url x w for n]
  by (auto simp: record_download_def split: option.splits)

lemma fst_record_download_free:
  "fst (transfer url idx x w) = fst (transfer url None x w)"
  by (auto simp: transfer_def promote_def Let_def split: get_result.splits sum.splits)

text \<open>Every run of the transfer takes one of these paths.\<close>

lemma transfer_paths:
  assumes "dest_dir w = Some d"
  obtains
    (failed) "x_get x = GetFailed \<or> (\<exists>r. x_get x = GetResponse r \<and> \<not> r_ok r)"
      "transfer url idx x w = (Inr False, log (ErrDownloadFailed url) w)"
  | (unopened) r e where "x_get x = GetResponse r" "r_ok r"
      "has_nul (target_filename r url) \<or> is_dir_at d (target_filename r url @ ''.part'')"
      "transfer url idx x w = (Inl e, w)"
  | (broken) r where "x_get x = GetResponse r" "r_ok r" "r_stream_fails r"
      "\<not> has_nul (target_filename r url)"
      "transfer url idx x w =
         (Inr False, log (ErrDownloadFailed url)
            (w\<lparr>dest_dir := Some (AList.update (target_filename r url @ ''.part'')
                                   (File (x_clock x) (body r)) d)\<rparr>))"
  | (undersized) r where "x_get x = GetResponse r" "r_ok r" "\<not> r_stream_fails r"
      "int (length (streamed r)) < MIN_FILESIZE_BYTES"
      "\<not> has_nul (target_filename r url)" "\<not> is_dir_at d (target_filename r url @ ''.part'')"
      "transfer url idx x w =
         (Inr False, log (WarnTooSmallBody (int (length (streamed r))) url)
            (w\<lparr>dest_dir := Some (AList.delete (target_filename r url @ ''.part'') d)\<rparr>))"
  | (blocked) r where "x_get x = GetResponse r" "r_ok r" "\<not> r_stream_fails r"
      "MIN_FILESIZE_BYTES \<le> int (length (streamed r))"
      "\<not> has_nul (target_filename r url)"
      "transfer url idx x w =
         (Inl OSError,
          w\<lparr>dest_dir := Some (AList.update (target_filename r url @ ''.part'')
                                 (File (x_clock x) (body r)) d)\<rparr>)"
  | (accepted) r where "x_get x = GetResponse r" "r_ok r" "\<not> r_stream_fails r"
      "MIN_FILESIZE_BYTES \<le> int (length (streamed r))"
      "\<not> has_nul (target_filename r url)" "\<not> is_dir_at d (target_filename r url @ ''.part'')"
      "\<not> is_dir_at d (target_filename r url)"
      "transfer url idx x w =
         (Inr True,
          record_download idx (target_filename r url) url x
            (log (InfoDownloaded (target_filename r url) (int (length (streamed r))))
               (w\<lparr>dest_dir := Some (AList.update (target_filename r url)
                                      (File (x_clock x) (body r))
                                      (AList.delete (target_filename r url @ ''.part'') d))\<rparr>)))"
proof (cases "x_get x")
  case GetFailed
  then show ?thesis using failed transfer_request_failed by blast
next
  case (GetResponse r)
  show ?thesis
  proof (cases "r_ok r")
    case False
    with GetResponse show ?thesis using failed transfer_request_failed by blast
  next
    case ok: True
    show ?thesis
    proof (cases "has_nul (target_filename r url) \<or> is_dir_at d (target_filename r url @ ''.part'')")
      case True
      from transfer_open_fails [OF GetResponse ok assms True]
      obtain e where "transfer url idx x w = (Inl e, w)" by blast
      with GetResponse ok True show ?thesis using unopened by blast
    next
      case False
      then have wr: "\<not> has_nul (target_filename r url)"
        "\<not> is_dir_at d (target_filename r url @ ''.part'')" by simp_all
      show ?thesis
      proof (cases "r_stream_fails r")
        case True
        from transfer_stream_breaks [OF GetResponse ok assms wr True] GetResponse ok True wr(1)
        show ?thesis using broken by blast
      next
        case complete: False
        show ?thesis
        proof (cases "int (length (streamed r)) < MIN_FILESIZE_BYTES")
          case True
          from transfer_undersized [OF GetResponse ok assms wr complete True]
            GetResponse ok complete True wr
          show ?thesis using undersized by blast
        next
          case False
          then have big: "MIN_FILESIZE_BYTES \<le> int (length (streamed r))" by simp
          show ?thesis
          proof (cases "is_dir_at d (target_filename r url)")
            case True
            from transfer_final_is_dir [OF GetResponse ok assms wr complete big True]
              GetResponse ok complete big wr(1)
            show ?thesis using blocked by blast
          next
            case False
            from transfer_accepted [OF GetResponse ok assms wr complete big False]
              GetResponse ok complete big wr False
            show ?thesis using accepted by blast
          qed
        qed
      qed
    qed
  qed
qed

lemma events_transfer:
  assumes "dest_dir w = Some d"
  shows "\<exists>es. events (snd (transfer url idx x w)) = events w @ es"
  using assms
proof (cases rule: transfer_paths [where x = x and url = url and idx = idx])
  case (accepted r)
  from events_record_download
  obtain es where "events (record_download idx (target_filename r url) url x
            (log (InfoDownloaded (target_filename r url) (int (length (streamed r))))
               (w\<lparr>dest_dir := Some (AList.update (target_filename r url)
                                      (File (x_clock x) (body r))
                                      (AList.delete (target_filename r url @ ''.part'') d))\<rparr>))) =
       events (log (InfoDownloaded (target_filename r url) (int (length (streamed r))))
               (w\<lparr>dest_dir := Some (AList.update (target_filename r url)
                                      (File (x_clock x) (body r))
                                      (AList.delete (target_filename r url @ ''.part'') d))\<rparr>)) @ es"
    by blast
  with accepted(8) show ?thesis by simp
qed simp_all

lemma head_rejects_declared:
  "content_length hdr \<noteq> 0 \<Longrightarrow> content_length hdr < MIN_FILESIZE_BYTES \<Longrightarrow>
   head_rejects (HeadResponse True hdr) = Some (content_length hdr)"
  by (simp add: head_rejects_def Let_def)

lemma head_rejects_failed: "head_rejects HeadFailed = None"
  by (simp add: head_rejects_def)

lemma record_download_None [simp]: "record_download None f url x w = w"
  by (simp add: record_download_def)

lemma record_download_empty [simp]: "record_download (Some []) f url x w = w"
  by (simp add: record_download_def)

lemma record_download_Some: "n \<noteq> [] \<Longrightarrow> record_download (Some n) f url x w = update_index n f url x w"
  by (simp add: record_download_def)

lemma accepted_without_ledger:
  assumes "download_file x url None w = (Inr True, w3)" and "x_get x = GetResponse r"
  shows "download_file x url idx w = (Inr True, record_download idx (target_filename r url) url x w3)"
proof (cases "head_rejects (x_head x)")
  case (Some cl)
  from download_file_rejected_by_probe [OF Some, of url None w] assms(1) show ?thesis by simp
next
  case None
  have t: "download_file x url i w = transfer url i x (started url w)" for i
    by (rule download_file_transfer [OF None])
  from dest_dir_started [of url w] show ?thesis
  proof (cases rule: transfer_paths [where x = x and url = url and idx = None])
    case (accepted r')
    with assms(2) have r': "r' = r" by simp
    note acc = accepted [unfolded r']
    from acc(8) assms(1) have w3: "w3 =
        log (InfoDownloaded (target_filename r url) (int (length (streamed r))))
          (started url w\<lparr>dest_dir := Some (AList.update (target_filename r url)
                                      (File (x_clock x) (body r))
                                      (AList.delete (target_filename r url @ ''.part'') (dir_of w)))\<rparr>)"
      by (simp add: t)
    from transfer_accepted [OF assms(2) acc(2) dest_dir_started acc(5) acc(6) acc(3) acc(4) acc(7),
        of idx]
    show ?thesis unfolding t w3 by simp
  qed (use assms(1) in \<open>simp_all add: t\<close>)
qed

text \<open>Facts about the example exchanges.\<close>

lemma length_big_body: "int (length big_body) = 307200"
  by (simp add: big_body_def)

lemma big_body_nonempty: "big_body \<noteq> []"
  by (simp add: big_body_def)

lemma streamed_photo: "streamed photo_response = big_body"
  by (simp add: streamed_def photo_response_def big_body_nonempty)

lemma body_photo: "body photo_response = Blob big_body None"
  by (simp add: body_def streamed_photo) (simp add: photo_response_def)

lemma target_photo: "target_filename photo_response photo_url = ''IMG_0001.JPG''"
  by (simp add: target_filename_def photo_response_def disposition_filename_def cd_match_at_def
      strip_def strip_quotes_def basename_def is_space_def)

lemma photo_big: "MIN_FILESIZE_BYTES \<le> int (length (streamed photo_response))"
  by (simp add: streamed_photo length_big_body MIN_FILESIZE_BYTES_def)

lemma photo_no_nul: "\<not> has_nul (target_filename photo_response photo_url)"
  by (simp add: target_photo has_nul_def)

text \<open>The photo exchange on a directory where neither of its two names is a directory.\<close>

lemma photo_accepted:
  assumes "head_rejects (x_head x) = None" "x_get x = GetResponse photo_response"
    and "dest_dir w = Some d"
    and "\<not> is_dir_at d ''IMG_0001.JPG.part''" "\<not> is_dir_at d ''IMG_0001.JPG''"
  shows "download_file x photo_url idx w =
           (Inr True,
            record_download idx ''IMG_0001.JPG'' photo_url x
              (log (InfoDownloaded ''IMG_0001.JPG'' 307200)
                 (started photo_url w\<lparr>dest_dir := Some (AList.update ''IMG_0001.JPG''
                      (File (x_clock x) (Blob big_body None)) (AList.delete ''IMG_0001.JPG.part'' d))\<rparr>)))"
proof -
  have ok: "r_ok photo_response" "\<not> r_stream_fails photo_response"
    by (simp_all add: photo_response_def)
  have ds: "dest_dir (started photo_url w) = Some d"
    using assms(3) by (simp add: dest_dir_started dir_of_def)
  have tmp: "\<not> is_dir_at d (target_filename photo_response photo_url @ ''.part'')"
    using assms(4) by (simp add: target_photo)
  have fin: "\<not> is_dir_at d (target_filename photo_response photo_url)"
    using assms(5) by (simp add: target_photo)
  from transfer_accepted [OF assms(2) ok(1) ds photo_no_nul tmp ok(2) photo_big fin, of idx]
  show ?thesis
    unfolding download_file_transfer [OF assms(1)]
    by (simp add: target_photo streamed_photo body_photo length_big_body)
qed

lemma photo_into_album:
  "download_file photo_exchange photo_url None album_world = (Inr True, album_after_photo)"
proof -
  have rej: "head_rejects (x_head photo_exchange) = None"
    by (simp add: photo_exchange_def head_rejects_def)
  have g: "x_get photo_exchange = GetResponse photo_response"
    by (simp add: photo_exchange_def)
  let ?d = "[(''abc123.jpg'', File 1600000000000000 (Blob [9, 9] None)),
         (''index.json'', File 1600000000000001
            (JsonArray [Entry ''abc123.jpg'' ''2020-09-13T12:26:40Z''
                          ''https://h.example/B/abc123.jpg?o=Old'']))]"
  have d: "dest_dir album_world = Some ?d" by (simp add: album_world_def)
  have n1: "\<not> is_dir_at ?d ''IMG_0001.JPG.part''" by (simp add: is_dir_at_def is_dir_name_def)
  have n2: "\<not> is_dir_at ?d ''IMG_0001.JPG''" by (simp add: is_dir_at_def is_dir_name_def)
  from photo_accepted [OF rej g d n1 n2, of None]
  show ?thesis
    by (simp add: started_def log_def makedirs_def album_world_def photo_exchange_def
        album_after_photo_def)
qed

section \<open>Download: the pre-flight gate\<close>

text \<open>
  Claim C7, as amended. When the probe succeeds and the length it declares is nonzero and
  below the minimum, the download is rejected at once: the result is False, the directory
  is untouched, and the only events are the probe and the warning, so no GET is sent.
  When the probe fails with a request exception the download goes on to the transfer, and
  the GET is sent.
\<close>

theorem preflight_gate:
  "(x_head x = HeadResponse True hdr \<and> content_length hdr \<noteq> 0 \<and>
    content_length hdr < MIN_FILESIZE_BYTES \<longrightarrow>
      fst (download_file x url idx w) = Inr False \<and>
      dest_dir (snd (download_file x url idx w)) = dest_dir (makedirs w) \<and>
      events (snd (download_file x url idx w)) =
        events w @ [HeadRequest url, WarnTooSmallDeclared (content_length hdr) url]) \<and>
   (x_head x = HeadFailed \<longrightarrow>
      download_file x url idx w = transfer url idx x (started url w) \<and>
      (\<exists>es. events (snd (download_file x url idx w)) =
              events w @ [HeadRequest url, GetRequest url] @ es))"
proof (intro conjI impI)
  assume h: "x_head x = HeadResponse True hdr \<and> content_length hdr \<noteq> 0 \<and>
    content_length hdr < MIN_FILESIZE_BYTES"
  then have "head_rejects (x_head x) = Some (content_length hdr)"
    by (simp add: head_rejects_declared)
  from download_file_rejected_by_probe [OF this, of url idx w]
  show "fst (download_file x url idx w) = Inr False"
    "dest_dir (snd (download_file x url idx w)) = dest_dir (makedirs w)"
    "events (snd (download_file x url idx w)) =
        events w @ [HeadRequest url, WarnTooSmallDeclared (content_length hdr) url]"
    by simp_all
next
  assume "x_head x = HeadFailed"
  then have n: "head_rejects (x_head x) = None" by (simp add: head_rejects_failed)
  from download_file_transfer [OF n]
  show t: "download_file x url idx w = transfer url idx x (started url w)" .
  from events_transfer [OF dest_dir_started, of url idx x url w]
  show "\<exists>es. events (snd (download_file x url idx w)) =
              events w @ [HeadRequest url, GetRequest url] @ es"
    unfolding t by (simp add: events_started)
qed

text \<open>
  A probe declaring 1024 bytes is rejected with no GET; after a failed probe the GET
  follows the HEAD.
\<close>

theorem preflight_gate_witness:
  "x_head declared_small_exchange = HeadResponse True (Some ''1024'') \<and>
   content_length (Some ''1024'') = 1024 \<and>
   fst (download_file declared_small_exchange photo_url None empty_world) = Inr False \<and>
   dest_dir (snd (download_file declared_small_exchange photo_url None empty_world)) = Some [] \<and>
   events (snd (download_file declared_small_exchange photo_url None empty_world)) =
     [HeadRequest photo_url, WarnTooSmallDeclared 1024 photo_url] \<and>
   x_head photo_exchange = HeadFailed \<and>
   (\<exists>es. events (snd (download_file photo_exchange photo_url None empty_world)) =
          [HeadRequest photo_url, GetRequest photo_url] @ es)"
proof -
  have h: "x_head declared_small_exchange = HeadResponse True (Some ''1024'')"
    by (simp add: declared_small_exchange_def)
  have cl: "content_length (Some ''1024'') = 1024" by code_simp
  have small: "content_length (Some ''1024'') \<noteq> 0 \<and>
               content_length (Some ''1024'') < MIN_FILESIZE_BYTES"
    by (simp add: cl MIN_FILESIZE_BYTES_def)
  have f: "x_head photo_exchange = HeadFailed" by (simp add: photo_exchange_def)
  have e: "events empty_world = []" "dest_dir (makedirs empty_world) = Some []"
    by (simp_all add: empty_world_def makedirs_def)
  from preflight_gate [of declared_small_exchange "Some ''1024''" photo_url None empty_world] h small
  have "fst (download_file declared_small_exchange photo_url None empty_world) = Inr False"
    "dest_dir (snd (download_file declared_small_exchange photo_url None empty_world)) = Some []"
    "events (snd (download_file declared_small_exchange photo_url None empty_world)) =
       [HeadRequest photo_url, WarnTooSmallDeclared 1024 photo_url]"
    by (simp_all add: e cl)
  moreover from preflight_gate [of photo_exchange None photo_url None empty_world] f
  have "\<exists>es. events (snd (download_file photo_exchange photo_url None empty_world)) =
          events empty_world @ [HeadRequest photo_url, GetRequest photo_url] @ es"
    by blast
  then have "\<exists>es. events (snd (download_file photo_exchange photo_url None empty_world)) =
          [HeadRequest photo_url, GetRequest photo_url] @ es"
    unfolding e by simp
  ultimately show ?thesis using h cl f by blast
qed

text \<open>
  Claim C7 as stated fails for a declared length of zero: the probe succeeds and declares
  0 bytes, which is below the minimum, yet the body is transferred, and here accepted.
\<close>

theorem declared_zero_length_not_rejected:
  "x_head zero_length_exchange = HeadResponse True (Some ''0'') \<and>
   content_length (Some ''0'') < MIN_FILESIZE_BYTES \<and>
   download_file zero_length_exchange photo_url None empty_world =
     (Inr True,
      \<lparr>dest_dir = Some [(''IMG_0001.JPG'', File 1700000000000000 (Blob big_body None))],
        outside = [],
        events = [HeadRequest photo_url, GetRequest photo_url,
                  InfoDownloaded ''IMG_0001.JPG'' 307200]\<rparr>)"
proof -
  have h: "x_head zero_length_exchange = HeadResponse True (Some ''0'')"
    by (simp add: zero_length_exchange_def)
  have cl: "content_length (Some ''0'') = 0" by code_simp
  have rej: "head_rejects (x_head zero_length_exchange) = None"
    unfolding h by (simp add: head_rejects_def cl)
  have g: "x_get zero_length_exchange = GetResponse photo_response"
    by (simp add: zero_length_exchange_def)
  have d: "dest_dir empty_world = Some []" by (simp add: empty_world_def)
  have n1: "\<not> is_dir_at [] ''IMG_0001.JPG.part''" by (simp add: is_dir_at_def is_dir_name_def)
  have n2: "\<not> is_dir_at [] ''IMG_0001.JPG''" by (simp add: is_dir_at_def is_dir_name_def)
  from photo_accepted [OF rej g d n1 n2, of None]
  have "download_file zero_length_exchange photo_url None empty_world =
     (Inr True,
      \<lparr>dest_dir = Some [(''IMG_0001.JPG'', File 1700000000000000 (Blob big_body None))],
        outside = [],
        events = [HeadRequest photo_url, GetRequest photo_url,
                  InfoDownloaded ''IMG_0001.JPG'' 307200]\<rparr>)"
    by (simp add: started_def log_def makedirs_def empty_world_def zero_length_exchange_def)
  with h cl show ?thesis by (simp add: MIN_FILESIZE_BYTES_def)
qed


section \<open>Download: the ledger\<close>

lemma accepted_dest_dir:
  assumes "download_file x url None w = (Inr True, w3)"
  shows "\<exists>d. dest_dir w3 = Some d"
proof (cases "head_rejects (x_head x)")
  case (Some cl)
  from download_file_rejected_by_probe [OF Some, of url None w] assms show ?thesis by simp
next
  case None
  from dest_dir_started [of url w] show ?thesis
  proof (cases rule: transfer_paths [where x = x and url = url and idx = None])
    case (accepted r')
    with assms download_file_transfer [OF None, of url None w] show ?thesis by auto
  qed (use assms download_file_transfer [OF None, of url None w] in simp_all)
qed

text \<open>
  Claim C10, as amended. Take an accepted download, computed without a ledger. With an
  empty index filename the result is the same. With a non-empty index filename, whatever
  path it is, the download is still accepted, every regular file of the directory other
  than the one the index path names is as the download left it, and exactly one of three
  things happens. The index path can be resolved and names nothing, or a file holding a
  JSON list all of whose items can be written: then it holds afterwards the new entry
  (filename, timestamp, URL) in front of that list, and the update is logged. Or it names a
  file holding a JSON list with an item that cannot be written: then the file is left
  truncated and a warning is logged. Or the path cannot be resolved, or names a directory
  or a file that does not hold a JSON list: then nothing is changed and a warning is
  logged.
\<close>

theorem ledger_entry_on_acceptance:
  assumes "download_file x url None w = (Inr True, w3)" and "x_get x = GetResponse r"
    and "n \<noteq> []"
  shows "download_file x url (Some []) w = (Inr True, w3) \<and>
    (\<exists>w'. download_file x url (Some n) w = (Inr True, w') \<and>
       (\<forall>m y. map_of (dir_of w3) m = Some y \<and> is_file y \<and> locate n w3 \<noteq> AtEntry m \<longrightarrow>
              map_of (dir_of w') m = Some y) \<and>
       ((\<exists>items fnd. read_index n w3 = Inr items \<and> find_path n w3 = Inr fnd \<and>
            list_all encodable items \<and>
            find_path n w' =
              Inr (IsFile (JsonArray (Entry (target_filename r url) (x_stamp x) url # items))) \<and>
            read_index n w' = Inr (Entry (target_filename r url) (x_stamp x) url # items) \<and>
            events w' = events w3 @ [DebugIndexUpdated n (target_filename r url)]) \<or>
        (\<exists>items fnd. read_index n w3 = Inr items \<and> find_path n w3 = Inr fnd \<and>
            \<not> list_all encodable items \<and>
            find_path n w' = Inr (IsFile Truncated) \<and>
            events w' = events w3 @ [WarnIndexFailed n]) \<or>
        (((\<exists>e. read_index n w3 = Inl e) \<or> (\<exists>e. find_path n w3 = Inl e)) \<and>
            w' = log (WarnIndexFailed n) w3)))"
proof
  from accepted_without_ledger [OF assms(1,2), of "Some []"]
  show "download_file x url (Some []) w = (Inr True, w3)" by simp
next
  let ?f = "target_filename r url"
  let ?e = "Entry ?f (x_stamp x) url"
  let ?w' = "update_index n ?f url x w3"
  from accepted_without_ledger [OF assms(1,2), of "Some n"] assms(3)
  have run: "download_file x url (Some n) w = (Inr True, ?w')"
    by (simp add: record_download_Some)
  from accepted_dest_dir [OF assms(1)] obtain d where d: "dest_dir w3 = Some d" by blast
  have frame_store: "map_of (dir_of (log ev (store n t c w3))) m = Some y"
    if "find_path n w3 = Inr fnd" "fnd \<noteq> IsDir" "map_of (dir_of w3) m = Some y" "is_file y"
      "locate n w3 \<noteq> AtEntry m" for fnd m y t c ev
  proof -
    from that(3) d have "map_of d m = Some y" by (simp add: dir_of_def)
    from store_frame [OF d that(1,2) this that(4,5), of t c]
    show ?thesis by (auto simp: dir_of_def)
  qed
  have not_dir: "fnd \<noteq> IsDir" if "read_index n w3 = Inr items" "find_path n w3 = Inr fnd" for items fnd
    using that by (cases fnd) (simp_all add: read_index_def path_exists_def)
  have "(\<forall>m y. map_of (dir_of w3) m = Some y \<and> is_file y \<and> locate n w3 \<noteq> AtEntry m \<longrightarrow>
              map_of (dir_of ?w') m = Some y) \<and>
       ((\<exists>items fnd. read_index n w3 = Inr items \<and> find_path n w3 = Inr fnd \<and>
            list_all encodable items \<and>
            find_path n ?w' = Inr (IsFile (JsonArray (?e # items))) \<and>
            read_index n ?w' = Inr (?e # items) \<and>
            events ?w' = events w3 @ [DebugIndexUpdated n ?f]) \<or>
        (\<exists>items fnd. read_index n w3 = Inr items \<and> find_path n w3 = Inr fnd \<and>
            \<not> list_all encodable items \<and>
            find_path n ?w' = Inr (IsFile Truncated) \<and>
            events ?w' = events w3 @ [WarnIndexFailed n]) \<or>
        (((\<exists>e. read_index n w3 = Inl e) \<or> (\<exists>e. find_path n w3 = Inl e)) \<and>
            ?w' = log (WarnIndexFailed n) w3))"
  proof (cases rule: update_index_cases [of n w3 ?f url x])
    case (updated items fnd)
    let ?c = "JsonArray (?e # items)"
    from find_path_store [OF updated(2,3), of "x_clock x" ?c]
    have fp: "find_path n ?w' = Inr (IsFile ?c)" by (simp add: updated(5))
    from read_index_found [OF fp] have rd: "read_index n ?w' = Inr (?e # items)"
      by (simp add: json_load_def)
    have ev: "events ?w' = events w3 @ [DebugIndexUpdated n ?f]" by (simp add: updated(5))
    have fr: "\<forall>m y. map_of (dir_of w3) m = Some y \<and> is_file y \<and> locate n w3 \<noteq> AtEntry m \<longrightarrow>
              map_of (dir_of ?w') m = Some y"
      unfolding updated(5) using frame_store [OF updated(2,3)] by blast
    show ?thesis
    proof (rule conjI [OF fr], rule disjI1)
      from updated(1,2,4) fp rd ev
      show "\<exists>items fnd. read_index n w3 = Inr items \<and> find_path n w3 = Inr fnd \<and>
            list_all encodable items \<and>
            find_path n ?w' = Inr (IsFile (JsonArray (?e # items))) \<and>
            read_index n ?w' = Inr (?e # items) \<and>
            events ?w' = events w3 @ [DebugIndexUpdated n ?f]"
        by blast
    qed
  next
    case (truncated items fnd)
    from find_path_store [OF truncated(2,3), of "x_clock x" Truncated]
    have fp: "find_path n ?w' = Inr (IsFile Truncated)" by (simp add: truncated(5))
    have ev: "events ?w' = events w3 @ [WarnIndexFailed n]" by (simp add: truncated(5))
    have fr: "\<forall>m y. map_of (dir_of w3) m = Some y \<and> is_file y \<and> locate n w3 \<noteq> AtEntry m \<longrightarrow>
              map_of (dir_of ?w') m = Some y"
      unfolding truncated(5) using frame_store [OF truncated(2,3)] by blast
    show ?thesis
    proof (rule conjI [OF fr], rule disjI2, rule disjI1)
      from truncated(1,2,4) fp ev
      show "\<exists>items fnd. read_index n w3 = Inr items \<and> find_path n w3 = Inr fnd \<and>
            \<not> list_all encodable items \<and>
            find_path n ?w' = Inr (IsFile Truncated) \<and>
            events ?w' = events w3 @ [WarnIndexFailed n]"
        by blast
    qed
  next
    case failed
    have fr: "\<forall>m y. map_of (dir_of w3) m = Some y \<and> is_file y \<and> locate n w3 \<noteq> AtEntry m \<longrightarrow>
              map_of (dir_of ?w') m = Some y"
      unfolding failed(2) by (simp add: dir_of_def)
    show ?thesis
    proof (rule conjI [OF fr], rule disjI2, rule disjI2)
      from failed
      show "((\<exists>e. read_index n w3 = Inl e) \<or> (\<exists>e. find_path n w3 = Inl e)) \<and>
            ?w' = log (WarnIndexFailed n) w3"
        by blast
    qed
  qed
  note main = this
  show "\<exists>w'. download_file x url (Some n) w = (Inr True, w') \<and>
       (\<forall>m y. map_of (dir_of w3) m = Some y \<and> is_file y \<and> locate n w3 \<noteq> AtEntry m \<longrightarrow>
              map_of (dir_of w') m = Some y) \<and>
       ((\<exists>items fnd. read_index n w3 = Inr items \<and> find_path n w3 = Inr fnd \<and>
            list_all encodable items \<and>
            find_path n w' =
              Inr (IsFile (JsonArray (Entry (target_filename r url) (x_stamp x) url # items))) \<and>
            read_index n w' = Inr (Entry (target_filename r url) (x_stamp x) url # items) \<and>
            events w' = events w3 @ [DebugIndexUpdated n (target_filename r url)]) \<or>
        (\<exists>items fnd. read_index n w3 = Inr items \<and> find_path n w3 = Inr fnd \<and>
            \<not> list_all encodable items \<and>
            find_path n w' = Inr (IsFile Truncated) \<and>
            events w' = events w3 @ [WarnIndexFailed n]) \<or>
        (((\<exists>e. read_index n w3 = Inl e) \<or> (\<exists>e. find_path n w3 = Inl e)) \<and>
            w' = log (WarnIndexFailed n) w3))"
  proof (rule exI [of _ ?w'], intro conjI)
    show "download_file x url (Some n) w = (Inr True, ?w')" by (rule run)
  qed (rule main [THEN conjunct1], rule main [THEN conjunct2])
qed

text \<open>
  A download into an album whose ledger holds one entry: with the index filename
  \<open>index.json\<close> the new entry goes in front and the downloaded file stays; with the index
  filename \<open>sub/index.json\<close>, where the album has no subdirectory \<open>sub\<close>, the download is
  accepted all the same, a warning is logged and nothing else changes.
\<close>

theorem ledger_entry_on_acceptance_witness:
  "download_file photo_exchange photo_url None album_world = (Inr True, album_after_photo) \<and>
   read_index ''index.json'' album_after_photo =
     Inr [Entry ''abc123.jpg'' ''2020-09-13T12:26:40Z'' ''https://h.example/B/abc123.jpg?o=Old''] \<and>
   (\<exists>w'. download_file photo_exchange photo_url (Some ''index.json'') album_world = (Inr True, w') \<and>
      read_index ''index.json'' w' =
        Inr [Entry ''IMG_0001.JPG'' ''2023-11-14T22:13:20Z'' photo_url,
             Entry ''abc123.jpg'' ''2020-09-13T12:26:40Z'' ''https://h.example/B/abc123.jpg?o=Old''] \<and>
      map_of (dir_of w') ''IMG_0001.JPG'' = Some (File 1700000000000000 (Blob big_body None)) \<and>
      events w' = events album_after_photo @ [DebugIndexUpdated ''index.json'' ''IMG_0001.JPG'']) \<and>
   find_path ''sub/index.json'' album_after_photo = Inl FileNotFoundError \<and>
   download_file photo_exchange photo_url (Some ''sub/index.json'') album_world =
     (Inr True, log (WarnIndexFailed ''sub/index.json'') album_after_photo)"
proof -
  let ?old = "Entry ''abc123.jpg'' ''2020-09-13T12:26:40Z'' ''https://h.example/B/abc123.jpg?o=Old''"
  let ?new = "Entry ''IMG_0001.JPG'' ''2023-11-14T22:13:20Z'' photo_url"
  have g: "x_get photo_exchange = GetResponse photo_response"
    by (simp add: photo_exchange_def)
  have d3: "dest_dir album_after_photo = Some
        [(''abc123.jpg'', File 1600000000000000 (Blob [9, 9] None)),
         (''index.json'', File 1600000000000001 (JsonArray [?old])),
         (''IMG_0001.JPG'', File 1700000000000000 (Blob big_body None))]"
    by (simp add: album_after_photo_def)
  have plain: "CHR ''/'' \<notin> set ''index.json''" "\<not> has_nul ''index.json''" by (simp_all add: has_nul_def)
  have fp: "find_path ''index.json'' album_after_photo = Inr (IsFile (JsonArray [?old]))"
    unfolding find_path_plain [OF plain d3] by (simp add: is_dir_name_def)
  have rd: "read_index ''index.json'' album_after_photo = Inr [?old]"
    unfolding read_index_found [OF fp] by (simp add: json_load_def)
  have loc: "locate ''index.json'' album_after_photo = AtEntry ''index.json''"
    by (rule locate_plain [OF plain(1) d3])
  have img: "map_of (dir_of album_after_photo) ''IMG_0001.JPG'' =
      Some (File 1700000000000000 (Blob big_body None))"
    by (simp add: dir_of_def d3)
  have stamp: "x_stamp photo_exchange = ''2023-11-14T22:13:20Z''" by (simp add: photo_exchange_def)
  have first: "\<exists>w'. download_file photo_exchange photo_url (Some ''index.json'') album_world = (Inr True, w') \<and>
      read_index ''index.json'' w' = Inr [?new, ?old] \<and>
      map_of (dir_of w') ''IMG_0001.JPG'' = Some (File 1700000000000000 (Blob big_body None)) \<and>
      events w' = events album_after_photo @ [DebugIndexUpdated ''index.json'' ''IMG_0001.JPG'']"
  proof -
    have n: "''index.json'' \<noteq> []" by simp
    from ledger_entry_on_acceptance [OF photo_into_album g n] obtain w' where
      run: "download_file photo_exchange photo_url (Some ''index.json'') album_world = (Inr True, w')"
      and frame: "\<forall>m y. map_of (dir_of album_after_photo) m = Some y \<and> is_file y \<and>
                locate ''index.json'' album_after_photo \<noteq> AtEntry m \<longrightarrow>
                map_of (dir_of w') m = Some y"
      and alt: "(\<exists>items fnd. read_index ''index.json'' album_after_photo = Inr items \<and>
            find_path ''index.json'' album_after_photo = Inr fnd \<and>
            list_all encodable items \<and>
            find_path ''index.json'' w' =
              Inr (IsFile (JsonArray (Entry (target_filename photo_response photo_url)
                     (x_stamp photo_exchange) photo_url # items))) \<and>
            read_index ''index.json'' w' =
              Inr (Entry (target_filename photo_response photo_url)
                     (x_stamp photo_exchange) photo_url # items) \<and>
            events w' = events album_after_photo @
              [DebugIndexUpdated ''index.json'' (target_filename photo_response photo_url)]) \<or>
        (\<exists>items fnd. read_index ''index.json'' album_after_photo = Inr items \<and>
            find_path ''index.json'' album_after_photo = Inr fnd \<and>
            \<not> list_all encodable items \<and>
            find_path ''index.json'' w' = Inr (IsFile Truncated) \<and>
            events w' = events album_after_photo @ [WarnIndexFailed ''index.json'']) \<or>
        (((\<exists>e. read_index ''index.json'' album_after_photo = Inl e) \<or>
          (\<exists>e. find_path ''index.json'' album_after_photo = Inl e)) \<and>
            w' = log (WarnIndexFailed ''index.json'') album_after_photo)"
      by blast
    have no_b: "\<not> (\<exists>items fnd. read_index ''index.json'' album_after_photo = Inr items \<and>
            find_path ''index.json'' album_after_photo = Inr fnd \<and>
            \<not> list_all encodable items \<and>
            find_path ''index.json'' w' = Inr (IsFile Truncated) \<and>
            events w' = events album_after_photo @ [WarnIndexFailed ''index.json''])"
      by (simp add: rd)
    have no_c: "\<not> (((\<exists>e. read_index ''index.json'' album_after_photo = Inl e) \<or>
          (\<exists>e. find_path ''index.json'' album_after_photo = Inl e)) \<and>
            w' = log (WarnIndexFailed ''index.json'') album_after_photo)"
      by (simp add: rd fp)
    from alt no_b no_c obtain items where
      ok: "read_index ''index.json'' album_after_photo = Inr items"
        "read_index ''index.json'' w' =
              Inr (Entry (target_filename photo_response photo_url)
                     (x_stamp photo_exchange) photo_url # items)"
        "events w' = events album_after_photo @
              [DebugIndexUpdated ''index.json'' (target_filename photo_response photo_url)]"
      by blast
    from ok(1) rd have items: "items = [?old]" by simp
    from ok(2,3) have res: "read_index ''index.json'' w' = Inr [?new, ?old]"
      "events w' = events album_after_photo @ [DebugIndexUpdated ''index.json'' ''IMG_0001.JPG'']"
      unfolding items by (simp_all add: target_photo stamp)
    have "is_file (File 1700000000000000 (Blob big_body None))" by simp
    with frame img loc have "map_of (dir_of w') ''IMG_0001.JPG'' =
        Some (File 1700000000000000 (Blob big_body None))"
      by simp
    with run res show ?thesis by blast
  qed
  have fps: "find_path ''sub/index.json'' album_after_photo = Inl FileNotFoundError"
    by (simp add: find_path_def has_nul_def locate_def route_def d3)
  have second: "download_file photo_exchange photo_url (Some ''sub/index.json'') album_world =
     (Inr True, log (WarnIndexFailed ''sub/index.json'') album_after_photo)"
  proof -
    have n: "''sub/index.json'' \<noteq> []" by simp
    from ledger_entry_on_acceptance [OF photo_into_album g n] obtain w' where
      run: "download_file photo_exchange photo_url (Some ''sub/index.json'') album_world = (Inr True, w')"
      and alt: "(\<exists>items fnd. read_index ''sub/index.json'' album_after_photo = Inr items \<and>
            find_path ''sub/index.json'' album_after_photo = Inr fnd \<and>
            list_all encodable items \<and>
            find_path ''sub/index.json'' w' =
              Inr (IsFile (JsonArray (Entry (target_filename photo_response photo_url)
                     (x_stamp photo_exchange) photo_url # items))) \<and>
            read_index ''sub/index.json'' w' =
              Inr (Entry (target_filename photo_response photo_url)
                     (x_stamp photo_exchange) photo_url # items) \<and>
            events w' = events album_after_photo @
              [DebugIndexUpdated ''sub/index.json'' (target_filename photo_response photo_url)]) \<or>
        (\<exists>items fnd. read_index ''sub/index.json'' album_after_photo = Inr items \<and>
            find_path ''sub/index.json'' album_after_photo = Inr fnd \<and>
            \<not> list_all encodable items \<and>
            find_path ''sub/index.json'' w' = Inr (IsFile Truncated) \<and>
            events w' = events album_after_photo @ [WarnIndexFailed ''sub/index.json'']) \<or>
        (((\<exists>e. read_index ''sub/index.json'' album_after_photo = Inl e) \<or>
          (\<exists>e. find_path ''sub/index.json'' album_after_photo = Inl e)) \<and>
            w' = log (WarnIndexFailed ''sub/index.json'') album_after_photo)"
      by blast
    from alt have "w' = log (WarnIndexFailed ''sub/index.json'') album_after_photo"
      by (simp add: fps)
    with run show ?thesis by simp
  qed
  from photo_into_album rd first fps second show ?thesis by blast
qed

text \<open>
  Claim C10 as stated fails when no index filename is given: the download is accepted and
  no ledger exists afterwards.
\<close>

theorem accepted_without_index_filename:
  "download_file photo_exchange photo_url None empty_world =
     (Inr True,
      \<lparr>dest_dir = Some [(''IMG_0001.JPG'', File 1700000000000000 (Blob big_body None))],
        outside = [],
        events = [HeadRequest photo_url, GetRequest photo_url,
                  InfoDownloaded ''IMG_0001.JPG'' 307200]\<rparr>)"
proof -
  have rej: "head_rejects (x_head photo_exchange) = None"
    by (simp add: photo_exchange_def head_rejects_def)
  have g: "x_get photo_exchange = GetResponse photo_response"
    by (simp add: photo_exchange_def)
  have d: "dest_dir empty_world = Some []" by (simp add: empty_world_def)
  have n1: "\<not> is_dir_at [] ''IMG_0001.JPG.part''" by (simp add: is_dir_at_def is_dir_name_def)
  have n2: "\<not> is_dir_at [] ''IMG_0001.JPG''" by (simp add: is_dir_at_def is_dir_name_def)
  from photo_accepted [OF rej g d n1 n2, of None]
  show ?thesis
    by (simp add: started_def log_def makedirs_def empty_world_def photo_exchange_def)
qed

section \<open>Prune, mirror and sync: auxiliary facts\<close>

lemma all_files_delete: "all_files d \<Longrightarrow> all_files (AList.delete n d)"
  using set_delete_subset [of n d] by (auto simp: all_files_def list_all_iff)

lemma fs_remove_file:
  assumes "dest_dir w = Some d" "plain_names d" "(n, x) \<in> set d" "is_file x"
  shows "fs_remove n w = Inr (w\<lparr>dest_dir := Some (AList.delete n d)\<rparr>)"
proof -
  from plain_file_entry [OF assms(2,3)] have m: "map_of d n = Some x" "\<not> has_nul n" "\<not> is_dir_name n" .
  from assms(4) obtain t c where "x = File t c" by (cases x) auto
  with m have "\<not> is_dir_at d n" by (simp add: is_dir_at_def)
  with m assms(1) show ?thesis by (simp add: fs_remove_def)
qed

lemma remove_each_files:
  assumes "dest_dir w = Some d" "plain_names d" "all_files d" "distinct fs" "set fs \<subseteq> fst ` set d"
  shows "fst (remove_each ev fs w) = None \<and>
         dest_dir (snd (remove_each ev fs w)) = Some (filter (\<lambda>(n, x). n \<notin> set fs) d) \<and>
         events (snd (remove_each ev fs w)) = events w @ map ev fs"
  using assms
proof (induction fs arbitrary: w d)
  case Nil
  then show ?case by simp
next
  case (Cons f fs)
  from Cons.prems(5) obtain x where x: "(f, x) \<in> set d" by auto
  with Cons.prems(3) have "is_file x" by (auto simp: all_files_def list_all_iff)
  from fs_remove_file [OF Cons.prems(1,2) x this]
  have rm: "fs_remove f w = Inr (w\<lparr>dest_dir := Some (AList.delete f d)\<rparr>)" .
  let ?w = "log (ev f) (w\<lparr>dest_dir := Some (AList.delete f d)\<rparr>)"
  have d': "dest_dir ?w = Some (AList.delete f d)" by (simp add: log_def)
  have sub: "set fs \<subseteq> fst ` set (AList.delete f d)"
    using Cons.prems(4,5) by (force simp: AList.delete_eq)
  from Cons.prems(4) have dfs: "distinct fs" by simp
  from Cons.IH [OF d' plain_names_delete [OF Cons.prems(2)] all_files_delete [OF Cons.prems(3)] dfs sub]
  have ih: "fst (remove_each ev fs ?w) = None"
    "dest_dir (snd (remove_each ev fs ?w)) = Some (filter (\<lambda>(n, x). n \<notin> set fs) (AList.delete f d))"
    "events (snd (remove_each ev fs ?w)) = events ?w @ map ev fs"
    by simp_all
  have flt: "filter (\<lambda>(n, x). n \<notin> set fs) (AList.delete f d) = filter (\<lambda>(n, x). n \<notin> set (f # fs)) d"
    by (induction d) (auto simp: AList.delete_eq)
  show ?case using rm ih flt by (simp add: log_def)
qed

lemma length_filter_names:
  assumes "distinct (map fst d)" "distinct fs" "set fs \<subseteq> fst ` set d"
  shows "length (filter (\<lambda>(n, x). n \<notin> set fs) d) = length d - length fs"
proof -
  let ?in = "filter (\<lambda>(n, x). n \<in> set fs) d"
  have "distinct (map fst ?in)" using assms(1) by (simp add: distinct_map_filter)
  moreover have "set (map fst ?in) = set fs" using assms(3) by force
  ultimately have "length (map fst ?in) = length fs"
    using assms(2) by (metis distinct_card)
  then have "length ?in = length fs" by simp
  moreover have "length ?in + length (filter (\<lambda>e. \<not> (case e of (n, x) \<Rightarrow> n \<in> set fs)) d) = length d"
    by (rule sum_length_filter_compl)
  moreover have "filter (\<lambda>e. \<not> (case e of (n, x) \<Rightarrow> n \<in> set fs)) d = filter (\<lambda>(n, x). n \<notin> set fs) d"
    by (rule filter_cong) auto
  ultimately show ?thesis by simp
qed

lemma listing_Some: "dest_dir w = Some d \<Longrightarrow> listing w = Some (map (\<lambda>(f, x). (f, mtime x)) d)"
  by (simp add: listing_def)

lemma names_newest_first:
  "set (newest_first l) = set l" "length (newest_first l) = length l"
  by (simp_all add: newest_first_def)

lemma distinct_names_newest_first:
  assumes "distinct (map fst l)"
  shows "distinct (map fst (newest_first l))"
proof -
  from assms have "distinct l" "inj_on fst (set l)" by (simp_all add: distinct_map)
  then show ?thesis by (simp add: distinct_map newest_first_def)
qed

lemma newest_first_split:
  assumes "(a, s) \<in> set (take k (newest_first l))" "(b, t) \<in> set (drop k (newest_first l))"
  shows "t \<le> s"
proof -
  let ?key = "\<lambda>(f, t). - t :: int"
  have "sorted (map ?key (newest_first l))" unfolding newest_first_def by (rule sorted_sort_key)
  then have "sorted (map ?key (take k (newest_first l)) @ map ?key (drop k (newest_first l)))"
    by (simp flip: map_append)
  then have "\<forall>x\<in>set (map ?key (take k (newest_first l))).
             \<forall>y\<in>set (map ?key (drop k (newest_first l))). x \<le> y"
    by (simp add: sorted_append)
  moreover have "?key (a, s) \<in> set (map ?key (take k (newest_first l)))"
    using assms(1) by force
  moreover have "?key (b, t) \<in> set (map ?key (drop k (newest_first l)))"
    using assms(2) by force
  ultimately have "?key (a, s) \<le> ?key (b, t)" by blast
  then show ?thesis by simp
qed

lemma prune_missing: "dest_dir w = None \<Longrightarrow> prune_files now keep_days max_files w = (None, w)"
  by (simp add: prune_files_def listing_def)

lemma prune_count_only:
  assumes "dest_dir w = Some d"
  shows "prune_files now 0 N w =
    (let files = newest_first (map (\<lambda>(f, x). (f, mtime x)) d) in
     if N > 0 \<and> int (length files) > N then
       remove_each InfoPrunedByCount (map fst (drop (nat N) files)) w
     else (None, w))"
  using assms by (simp add: prune_files_def listing_Some Let_def)

lemma dest_dir_log_any: "dest_dir (log e w) = dest_dir w"
  by (simp add: log_def)

lemma events_log_any: "events (log e w) = events w @ [e]"
  by (simp add: log_def)

lemma fs_remove_same_dir:
  "dest_dir w' = dest_dir w \<Longrightarrow> fs_remove n w = Inl e \<Longrightarrow> fs_remove n w' = Inl e"
  by (auto simp: fs_remove_def split: if_splits option.splits)

lemma events_mirror_delete: "\<exists>es. events (mirror_delete fs w) = events w @ es"
proof (induction fs arbitrary: w)
  case Nil
  then show ?case by simp
next
  case (Cons f fs)
  let ?w = "case fs_remove f w of Inl e \<Rightarrow> log (WarnDeleteFailed f) w
            | Inr w' \<Rightarrow> log (InfoMirroredDeletion f) w'"
  from Cons.IH [of ?w] obtain es where es: "events (mirror_delete fs ?w) = events ?w @ es" by blast
  have "\<exists>e. events ?w = events w @ [e]"
    by (cases "fs_remove f w") (auto simp: events_log_any dest!: fs_remove_InrD)
  with es show ?case by auto
qed

lemma mirror_delete_all_fail:
  assumes "\<forall>f\<in>set fs. \<exists>e. fs_remove f w = Inl e"
  shows "dest_dir (mirror_delete fs w) = dest_dir w"
  using assms
proof (induction fs arbitrary: w)
  case Nil
  then show ?case by simp
next
  case (Cons f fs)
  from Cons.prems obtain e where e: "fs_remove f w = Inl e" by auto
  let ?w = "log (WarnDeleteFailed f) w"
  have same: "dest_dir ?w = dest_dir w" by (rule dest_dir_log_any)
  have "\<forall>g\<in>set fs. \<exists>e. fs_remove g ?w = Inl e"
    using Cons.prems fs_remove_same_dir [OF same] by auto
  from Cons.IH [OF this] e same show ?case by simp
qed

lemma remove_not_on_disk_fails:
  assumes "dest_dir w = Some d" "n \<in> fst ` set d" "n \<notin> set (current_on_disk w)"
  shows "\<exists>e. fs_remove n w = Inl e"
proof (cases "has_nul n")
  case True
  then show ?thesis by (simp add: fs_remove_def)
next
  case False
  from assms(2) obtain x where x: "map_of d n = Some x"
    by (metis domD dom_map_of_conv_image_fst)
  then have "(n, x) \<in> set d" by (rule map_of_SomeD)
  with assms(1,3) have "\<not> is_file x" by (force simp: current_on_disk_def)
  then obtain t where "x = Dir t" by (cases x) auto
  with x have "is_dir_at d n" by (simp add: is_dir_at_def)
  with False assms(1) show ?thesis by (simp add: fs_remove_def)
qed

lemma mirror_with_listing_keeps_all:
  "dest_dir (mirror_missing_files (current_on_disk w) w) = dest_dir w"
proof (cases "dest_dir w")
  case None
  then show ?thesis by (simp add: mirror_missing_files_def Let_def dest_dir_log_any)
next
  case (Some d)
  let ?keep = "current_on_disk w"
  let ?w = "log (MirrorCall ?keep) w"
  have dl: "dest_dir ?w = Some d" using Some by (simp add: dest_dir_log_any)
  have keep: "current_on_disk ?w = ?keep" by (simp add: current_on_disk_def dest_dir_log_any)
  have "\<forall>f\<in>set (filter (\<lambda>f. f \<notin> set ?keep) (map fst d)). \<exists>e. fs_remove f ?w = Inl e"
    using remove_not_on_disk_fails [OF dl] keep by auto
  from mirror_delete_all_fail [OF this] dl Some show ?thesis
    by (simp add: mirror_missing_files_def Let_def)
qed

lemma events_mirror_missing_files:
  "\<exists>es. events (mirror_missing_files keep w) = events w @ MirrorCall keep # es"
proof (cases "dest_dir w")
  case None
  then show ?thesis by (simp add: mirror_missing_files_def Let_def dest_dir_log_any events_log_any)
next
  case (Some d)
  from events_mirror_delete [of "filter (\<lambda>f. f \<notin> set keep) (map fst d)" "log (MirrorCall keep) w"]
  show ?thesis using Some
    by (auto simp: mirror_missing_files_def Let_def dest_dir_log_any events_log_any)
qed

lemma dir_of_Some: "dest_dir w = Some d \<Longrightarrow> dir_of w = d"
  by (simp add: dir_of_def)

text \<open>Well-formed names are kept by every step of the sync.\<close>

lemma update_index_plain:
  assumes "dest_dir w = Some d" "plain_names d"
  shows "\<exists>d'. dest_dir (update_index n f url x w) = Some d' \<and> plain_names d'"
proof (cases rule: update_index_cases [of n w f url x])
  case (updated items fnd)
  from store_plain [OF assms updated(2,3)] updated(5) show ?thesis by simp
next
  case (truncated items fnd)
  from store_plain [OF assms truncated(2,3)] truncated(5) show ?thesis by simp
next
  case failed
  with assms show ?thesis by simp
qed

lemma record_download_plain:
  assumes "dest_dir w = Some d" "plain_names d"
  shows "\<exists>d'. dest_dir (record_download idx f url x w) = Some d' \<and> plain_names d'"
  using update_index_plain [OF assms] assms
  by (auto simp: record_download_def split: option.splits)

lemma transfer_plain:
  assumes "dest_dir w = Some d" "plain_names d"
  shows "\<exists>d'. dest_dir (snd (transfer url idx x w)) = Some d' \<and> plain_names d'"
  using assms(1)
proof (cases rule: transfer_paths [where x = x and url = url and idx = idx])
  case failed
  with assms show ?thesis by simp
next
  case (unopened r e)
  with assms show ?thesis by simp
next
  case (broken r)
  have "plain_names (AList.update (target_filename r url @ ''.part'')
          (File (x_clock x) (body r)) d)"
    using assms(2) broken(4) by (intro plain_names_update) (simp_all add: part_not_dir_name)
  with broken(5) show ?thesis by simp
next
  case (undersized r)
  with plain_names_delete [OF assms(2)] show ?thesis by simp
next
  case (blocked r)
  have "plain_names (AList.update (target_filename r url @ ''.part'')
          (File (x_clock x) (body r)) d)"
    using assms(2) blocked(5) by (intro plain_names_update) (simp_all add: part_not_dir_name)
  with blocked(6) show ?thesis by simp
next
  case (accepted r)
  let ?d = "AList.update (target_filename r url) (File (x_clock x) (body r))
              (AList.delete (target_filename r url @ ''.part'') d)"
  let ?w = "log (InfoDownloaded (target_filename r url) (int (length (streamed r))))
              (w\<lparr>dest_dir := Some ?d\<rparr>)"
  have "plain_names ?d"
    using plain_names_delete [OF assms(2)] accepted(5,7)
    by (intro plain_names_update) (simp_all add: not_dir_at_not_dir_name)
  moreover have "dest_dir ?w = Some ?d" by simp
  ultimately have "\<exists>d'. dest_dir (record_download idx (target_filename r url) url x ?w) = Some d' \<and>
      plain_names d'"
    by (intro record_download_plain)
  with accepted(8) show ?thesis by simp
qed

lemma download_file_plain:
  assumes "plain_names (dir_of w)"
  shows "\<exists>d'. dest_dir (snd (download_file x url idx w)) = Some d' \<and> plain_names d'"
proof (cases "head_rejects (x_head x)")
  case (Some cl)
  from download_file_rejected_by_probe [OF Some, of url idx w] assms show ?thesis
    by (simp add: dest_dir_makedirs dir_of_def)
next
  case None
  have ds: "dest_dir (started url w) = Some (dir_of w)" by (rule dest_dir_started)
  from transfer_plain [OF ds assms, where url = url and idx = idx and x = x]
  show ?thesis by (simp add: download_file_transfer [OF None])
qed

lemma download_all_plain:
  assumes "dest_dir w = Some d" "plain_names d"
  shows "\<exists>d'. dest_dir (snd (download_all media idx w)) = Some d' \<and> plain_names d'"
  using assms
proof (induction media arbitrary: w d)
  case Nil
  then show ?case by simp
next
  case (Cons m media)
  obtain url x where m: "m = (url, x)" by (cases m)
  obtain r w' where step: "download_file x url idx w = (r, w')" by (cases "download_file x url idx w")
  from Cons.prems have "plain_names (dir_of w)" by (simp add: dir_of_Some)
  from download_file_plain [OF this, of x url idx] step
  obtain d' where d': "dest_dir w' = Some d'" "plain_names d'" by auto
  show ?case
  proof (cases r)
    case (Inl e)
    with m step d' show ?thesis by simp
  next
    case (Inr ok)
    obtain r2 w2 where rest: "download_all media idx w' = (r2, w2)"
      by (cases "download_all media idx w'")
    from Cons.IH [OF d'] rest obtain d2 where "dest_dir w2 = Some d2" "plain_names d2" by auto
    with m step Inr rest show ?thesis by (cases r2) simp_all
  qed
qed

lemma remove_each_plain:
  assumes "dest_dir w = Some d" "plain_names d"
  shows "\<exists>d'. dest_dir (snd (remove_each ev fs w)) = Some d' \<and> plain_names d'"
  using assms
proof (induction fs arbitrary: w d)
  case Nil
  then show ?case by simp
next
  case (Cons f fs)
  show ?case
  proof (cases "fs_remove f w")
    case (Inl e)
    with Cons.prems show ?thesis by simp
  next
    case (Inr w')
    from fs_remove_InrD [OF Inr] Cons.prems(1)
    have w': "w' = w\<lparr>dest_dir := Some (AList.delete f d)\<rparr>" by auto
    have "dest_dir (log (ev f) w') = Some (AList.delete f d)" by (simp add: w')
    from Cons.IH [OF this plain_names_delete [OF Cons.prems(2)]] Inr show ?thesis by simp
  qed
qed

lemma prune_files_plain:
  assumes "dest_dir w = Some d" "plain_names d"
  shows "\<exists>d'. dest_dir (snd (prune_files now keep_days max_files w)) = Some d' \<and> plain_names d'"
proof -
  let ?old = "map fst (filter (\<lambda>(f, t). t < now - keep_days * DAY)
                 (newest_first (map (\<lambda>(f, x). (f, mtime x)) d)))"
  let ?age = "if keep_days > 0 then remove_each InfoPrunedByAge ?old w else (None, w)"
  obtain r1 w1 where age: "?age = (r1, w1)" by (cases ?age)
  have "\<exists>d1. dest_dir (snd ?age) = Some d1 \<and> plain_names d1"
    using remove_each_plain [OF assms, of InfoPrunedByAge ?old] assms by simp
  with age obtain d1 where d1: "dest_dir w1 = Some d1" "plain_names d1" by auto
  show ?thesis
  proof (cases r1)
    case (Some e)
    with age d1 assms(1) show ?thesis by (simp add: prune_files_def listing_Some)
  next
    case None
    let ?files = "newest_first (map (\<lambda>(f, x). (f, mtime x)) d1)"
    from remove_each_plain [OF d1, of InfoPrunedByCount "map fst (drop (nat max_files) ?files)"]
    show ?thesis using None age d1 assms(1)
      by (simp add: prune_files_def listing_Some Let_def)
  qed
qed

text \<open>What the reconciler leaves: the regular files named in the keep list, and every directory.\<close>

lemma fs_remove_dir:
  assumes "dest_dir w = Some d" "plain_names d" "(n, x) \<in> set d" "\<not> is_file x"
  shows "\<exists>e. fs_remove n w = Inl e"
proof -
  from plain_file_entry [OF assms(2,3)] have m: "map_of d n = Some x" by simp
  from assms(4) obtain t where "x = Dir t" by (cases x) auto
  with m have "is_dir_at d n" by (simp add: is_dir_at_def)
  with assms(1) show ?thesis by (simp add: fs_remove_def)
qed

lemma mirror_delete_result:
  assumes "dest_dir w = Some d" "plain_names d" "distinct fs" "set fs \<subseteq> fst ` set d"
  shows "dest_dir (mirror_delete fs w) = Some (filter (\<lambda>(n, x). n \<notin> set fs \<or> \<not> is_file x) d)"
  using assms
proof (induction fs arbitrary: w d)
  case Nil
  then show ?case by simp
next
  case (Cons f fs)
  from Cons.prems(4) obtain x where x: "(f, x) \<in> set d" by auto
  from Cons.prems(3) have dfs: "distinct fs" "f \<notin> set fs" by simp_all
  have uniq: "y = x" if "(f, y) \<in> set d" for y
    using that x Cons.prems(2) by (metis eq_key_imp_eq_value plain_names_def)
  show ?case
  proof (cases "is_file x")
    case True
    from fs_remove_file [OF Cons.prems(1,2) x True]
    have rm: "fs_remove f w = Inr (w\<lparr>dest_dir := Some (AList.delete f d)\<rparr>)" .
    let ?w = "log (InfoMirroredDeletion f) (w\<lparr>dest_dir := Some (AList.delete f d)\<rparr>)"
    have d': "dest_dir ?w = Some (AList.delete f d)" by simp
    have sub: "set fs \<subseteq> fst ` set (AList.delete f d)"
      using Cons.prems(4) dfs(2) by (force simp: AList.delete_eq)
    from Cons.IH [OF d' plain_names_delete [OF Cons.prems(2)] dfs(1) sub]
    have "dest_dir (mirror_delete fs ?w) =
        Some (filter (\<lambda>(n, x). n \<notin> set fs \<or> \<not> is_file x) (AList.delete f d))" .
    moreover have "filter (\<lambda>(n, x). n \<notin> set fs \<or> \<not> is_file x) (AList.delete f d) =
        filter (\<lambda>(n, x). n \<notin> set (f # fs) \<or> \<not> is_file x) d"
      unfolding AList.delete_eq filter_filter
      by (rule filter_cong) (use True uniq in auto)
    ultimately show ?thesis using rm by simp
  next
    case False
    from fs_remove_dir [OF Cons.prems(1,2) x False] obtain e where rm: "fs_remove f w = Inl e" by blast
    let ?w = "log (WarnDeleteFailed f) w"
    have d': "dest_dir ?w = Some d" using Cons.prems(1) by simp
    have sub: "set fs \<subseteq> fst ` set d" using Cons.prems(4) by simp
    from Cons.IH [OF d' Cons.prems(2) dfs(1) sub]
    have "dest_dir (mirror_delete fs ?w) = Some (filter (\<lambda>(n, x). n \<notin> set fs \<or> \<not> is_file x) d)" .
    moreover have "filter (\<lambda>(n, x). n \<notin> set fs \<or> \<not> is_file x) d =
        filter (\<lambda>(n, x). n \<notin> set (f # fs) \<or> \<not> is_file x) d"
      by (rule filter_cong) (use False uniq in auto)
    ultimately show ?thesis using rm by simp
  qed
qed

lemma mirror_missing_files_result:
  assumes "dest_dir w = Some d" "plain_names d"
  shows "dest_dir (mirror_missing_files keep w) =
           Some (filter (\<lambda>(n, x). n \<in> set keep \<or> \<not> is_file x) d)"
proof -
  let ?fs = "filter (\<lambda>f. f \<notin> set keep) (map fst d)"
  let ?w = "log (MirrorCall keep) w"
  have d': "dest_dir ?w = Some d" using assms(1) by simp
  have "distinct ?fs" using assms(2) by (simp add: plain_names_def)
  moreover have "set ?fs \<subseteq> fst ` set d" by auto
  ultimately have "dest_dir (mirror_delete ?fs ?w) =
      Some (filter (\<lambda>(n, x). n \<notin> set ?fs \<or> \<not> is_file x) d)"
    by (rule mirror_delete_result [OF d' assms(2)])
  moreover have "filter (\<lambda>(n, x). n \<notin> set ?fs \<or> \<not> is_file x) d =
      filter (\<lambda>(n, x). n \<in> set keep \<or> \<not> is_file x) d"
    by (rule filter_cong) force+
  ultimately show ?thesis using assms(1) by (simp add: mirror_missing_files_def Let_def)
qed

lemma download_all_urls:
  "download_all media idx w = (Inr names, w') \<Longrightarrow>
   names = map url_basename (downloaded_urls media idx w)"
proof (induction media arbitrary: w names w')
  case Nil
  then show ?case by simp
next
  case (Cons m media)
  obtain url x where m: "m = (url, x)" by (cases m)
  from Cons.prems m obtain ok w1 rest w2 where
    step: "download_file x url idx w = (Inr ok, w1)" and
    rest: "download_all media idx w1 = (Inr rest, w2)" and
    names: "names = (if ok then url_basename url # rest else rest)"
    by (auto split: prod.splits sum.splits)
  from Cons.IH [OF rest] have "rest = map url_basename (downloaded_urls media idx w1)" .
  with names m step show ?case by simp
qed

lemma takeWhile_stop: "c \<notin> set xs \<Longrightarrow> takeWhile (\<lambda>a. a \<noteq> c) (xs @ c # ys) = xs"
  by (induction xs) auto

lemma takeWhile_all: "c \<notin> set xs \<Longrightarrow> takeWhile (\<lambda>a. a \<noteq> c) xs = xs"
  by (induction xs) auto

text \<open>
  The URL-derived basename: cut the URL before its first question mark; what follows the
  last slash of the part kept is the basename.
\<close>

lemma url_basename_segment:
  assumes "pre = [] \<or> last pre = CHR ''/''" "CHR ''/'' \<notin> set seg"
    and "CHR ''?'' \<notin> set (pre @ seg)" "rest = [] \<or> hd rest = CHR ''?''"
  shows "url_basename (pre @ seg @ rest) = seg"
proof -
  have cut: "takeWhile (\<lambda>c. c \<noteq> CHR ''?'') (pre @ seg @ rest) = pre @ seg"
  proof (cases rest)
    case Nil
    with takeWhile_all [OF assms(3)] show ?thesis by simp
  next
    case (Cons c cs)
    with assms(4) have "c = CHR ''?''" by simp
    with Cons takeWhile_stop [OF assms(3), of cs] show ?thesis by simp
  qed
  have "takeWhile (\<lambda>c. c \<noteq> CHR ''/'') (rev seg @ rev pre) = rev seg"
  proof (cases "pre = []")
    case True
    with takeWhile_all [of "CHR ''/''" "rev seg"] assms(2) show ?thesis by simp
  next
    case False
    with assms(1) have "hd (rev pre) = CHR ''/''" "rev pre \<noteq> []" by (simp_all add: hd_rev)
    then obtain ps where "rev pre = CHR ''/'' # ps" by (cases "rev pre") auto
    with takeWhile_stop [of "CHR ''/''" "rev seg" ps] assms(2) show ?thesis by simp
  qed
  then show ?thesis by (simp add: url_basename_def basename_def cut)
qed

lemma photo_with_ledger:
  assumes "dest_dir w = dest_dir album_world"
  shows "fst (download_file photo_exchange photo_url (Some ''index.json'') w) = Inr True \<and>
         dest_dir (snd (download_file photo_exchange photo_url (Some ''index.json'') w)) =
           Some album_dir_after_photo"
proof -
  have rej: "head_rejects (x_head photo_exchange) = None"
    by (simp add: photo_exchange_def head_rejects_def)
  have g: "x_get photo_exchange = GetResponse photo_response"
    by (simp add: photo_exchange_def)
  let ?old = "[Entry ''abc123.jpg'' ''2020-09-13T12:26:40Z''
                          ''https://h.example/B/abc123.jpg?o=Old'']"
  let ?d = "[(''abc123.jpg'', File 1600000000000000 (Blob [9, 9] None)),
         (''index.json'', File 1600000000000001 (JsonArray ?old))]"
  have d: "dest_dir w = Some ?d" using assms by (simp add: album_world_def)
  have n1: "\<not> is_dir_at ?d ''IMG_0001.JPG.part''" by (simp add: is_dir_at_def is_dir_name_def)
  have n2: "\<not> is_dir_at ?d ''IMG_0001.JPG''" by (simp add: is_dir_at_def is_dir_name_def)
  have clk: "x_clock photo_exchange = 1700000000000000"
    "x_stamp photo_exchange = ''2023-11-14T22:13:20Z''"
    by (simp_all add: photo_exchange_def)
  let ?d1 = "[(''abc123.jpg'', File 1600000000000000 (Blob [9, 9] None)),
         (''index.json'', File 1600000000000001 (JsonArray ?old)),
         (''IMG_0001.JPG'', File 1700000000000000 (Blob big_body None))]"
  let ?w1 = "log (InfoDownloaded ''IMG_0001.JPG'' 307200) (started photo_url w\<lparr>dest_dir := Some ?d1\<rparr>)"
  from photo_accepted [OF rej g d n1 n2, of "Some ''index.json''"]
  have run: "download_file photo_exchange photo_url (Some ''index.json'') w =
      (Inr True, update_index ''index.json'' ''IMG_0001.JPG'' photo_url photo_exchange ?w1)"
    by (simp add: record_download_def clk)
  have d1: "dest_dir ?w1 = Some ?d1" by simp
  have at: "map_of ?d1 ''index.json'' = Some (File 1600000000000001 (JsonArray ?old))" by simp
  have plain: "CHR ''/'' \<notin> set ''index.json''" "\<not> has_nul ''index.json''"
    "\<not> is_dir_name ''index.json''"
    by (simp_all add: has_nul_def is_dir_name_def)
  have jl: "json_load (JsonArray ?old) = Inr ?old" by (simp add: json_load_def)
  have enc: "list_all encodable ?old" by simp
  note upd = update_index_plain_name [OF plain d1 at jl enc, of "''IMG_0001.JPG''" photo_url photo_exchange]
  show ?thesis
    unfolding run upd by (simp add: album_dir_after_photo_def clk)
qed

section \<open>Retention\<close>

text \<open>
  Claim C9. Pruning a missing directory returns without an error and changes nothing. For
  a well-formed directory of \<open>M\<close> files and \<open>N > 0\<close>, pruning with \<open>keep_days = 0\<close> and
  \<open>max_files = N\<close> returns without an error and leaves \<open>min N M\<close> entries, all of them
  entries of the directory as they were, and every entry left was modified no earlier than
  every entry deleted.
\<close>

theorem prune_keeps_newest:
  "(dest_dir w = None \<longrightarrow> prune_files now keep_days max_files w = (None, w)) \<and>
   (dest_dir w = Some d \<and> plain_names d \<and> all_files d \<and> 0 < N \<longrightarrow>
      fst (prune_files now 0 N w) = None \<and>
      (\<exists>d'. dest_dir (snd (prune_files now 0 N w)) = Some d' \<and>
            length d' = min (nat N) (length d) \<and> set d' \<subseteq> set d \<and>
            (\<forall>(n, x)\<in>set d'. \<forall>(m, y)\<in>set d - set d'. mtime y \<le> mtime x)))"
proof (rule conjI; rule impI)
  assume "dest_dir w = None"
  then show "prune_files now keep_days max_files w = (None, w)" by (rule prune_missing)
next
  assume a: "dest_dir w = Some d \<and> plain_names d \<and> all_files d \<and> 0 < N"
  then have dw: "dest_dir w = Some d" and pn: "plain_names d" and af: "all_files d" and N: "0 < N"
    by simp_all
  let ?l = "map (\<lambda>(f, x). (f, mtime x)) d"
  let ?files = "newest_first ?l"
  let ?gone = "map fst (drop (nat N) ?files)"
  have names_l: "map fst ?l = map fst d" by (induction d) auto
  have dist_d: "distinct (map fst d)" using pn by (simp add: plain_names_def)
  have dist_files: "distinct (map fst ?files)"
    by (rule distinct_names_newest_first) (simp only: names_l dist_d)
  have len_files: "length ?files = length d" by (simp add: names_newest_first)
  have set_files: "set ?files = set ?l" by (simp add: names_newest_first)
  have split: "?files = take (nat N) ?files @ drop (nat N) ?files" by simp
  have dist_gone: "distinct ?gone"
  proof -
    have "distinct (map fst (take (nat N) ?files) @ map fst (drop (nat N) ?files))"
      using dist_files by (simp flip: map_append)
    then show ?thesis by simp
  qed
  have sub_gone: "set ?gone \<subseteq> fst ` set d"
  proof
    fix m assume "m \<in> set ?gone"
    then obtain t where "(m, t) \<in> set (drop (nat N) ?files)" by auto
    then have "(m, t) \<in> set ?files" by (rule in_set_dropD)
    then have "(m, t) \<in> set ?l" by (simp add: set_files)
    then show "m \<in> fst ` set d" by force
  qed
  show "fst (prune_files now 0 N w) = None \<and>
      (\<exists>d'. dest_dir (snd (prune_files now 0 N w)) = Some d' \<and>
            length d' = min (nat N) (length d) \<and> set d' \<subseteq> set d \<and>
            (\<forall>(n, x)\<in>set d'. \<forall>(m, y)\<in>set d - set d'. mtime y \<le> mtime x))"
  proof (cases "int (length d) > N")
    case False
    then have "prune_files now 0 N w = (None, w)"
      using prune_count_only [OF dw, of now N] by (simp add: Let_def len_files)
    moreover have "length d = min (nat N) (length d)" using False by simp
    ultimately show ?thesis using dw by auto
  next
    case True
    then have run: "prune_files now 0 N w = remove_each InfoPrunedByCount ?gone w"
      using prune_count_only [OF dw, of now N] N by (simp add: Let_def len_files)
    let ?d' = "filter (\<lambda>(n, x). n \<notin> set ?gone) d"
    from remove_each_files [OF dw pn af dist_gone sub_gone, of InfoPrunedByCount]
    have res: "fst (prune_files now 0 N w) = None"
      "dest_dir (snd (prune_files now 0 N w)) = Some ?d'"
      unfolding run by simp_all
    have "length ?d' = length d - length ?gone"
      by (rule length_filter_names [OF dist_d dist_gone sub_gone])
    also have "\<dots> = min (nat N) (length d)" using True N by (simp add: len_files)
    finally have len: "length ?d' = min (nat N) (length d)" .
    have order: "mtime y \<le> mtime x" if kept: "(n, x) \<in> set ?d'" and lost: "(m, y) \<in> set d - set ?d'"
      for n x m y
    proof -
      from kept have nx: "(n, x) \<in> set d" "n \<notin> set ?gone" by auto
      from lost have my: "(m, y) \<in> set d" "m \<in> set ?gone" by auto
      from nx(1) have "(n, mtime x) \<in> set ?files" unfolding set_files by force
      then have "(n, mtime x) \<in> set (take (nat N) ?files) \<or> (n, mtime x) \<in> set (drop (nat N) ?files)"
        by (metis Un_iff set_append split)
      moreover have "(n, mtime x) \<notin> set (drop (nat N) ?files)" using nx(2) by force
      ultimately have top: "(n, mtime x) \<in> set (take (nat N) ?files)" by blast
      from my(2) obtain t where t: "(m, t) \<in> set (drop (nat N) ?files)" by auto
      then have "(m, t) \<in> set ?l" using set_files by (metis in_set_dropD)
      then obtain y' where y': "(m, y') \<in> set d" "t = mtime y'" by auto
      from dist_d my(1) y'(1) have "y' = y" by (metis eq_key_imp_eq_value)
      with t y'(2) have "(m, mtime y) \<in> set (drop (nat N) ?files)" by simp
      from newest_first_split [OF top this] show ?thesis .
    qed
    have "set ?d' \<subseteq> set d" by auto
    with res len order show ?thesis by blast
  qed
qed

text \<open>
  The scenario of the specification: ten files, \<open>keep_days = 0\<close>, \<open>max_files = 5\<close>; the five
  newest remain.
\<close>

theorem prune_keeps_newest_witness:
  "plain_names ten_files \<and> all_files ten_files \<and> length ten_files = 10 \<and>
   fst (prune_files 0 0 5 \<lparr>dest_dir = Some ten_files, outside = [], events = []\<rparr>) = None \<and>
   dest_dir (snd (prune_files 0 0 5 \<lparr>dest_dir = Some ten_files, outside = [], events = []\<rparr>)) =
     Some [(''img07.jpg'', File 1007 (Blob [] None)), (''img10.jpg'', File 1010 (Blob [] None)),
           (''img09.jpg'', File 1009 (Blob [] None)), (''img08.jpg'', File 1008 (Blob [] None)),
           (''img06.jpg'', File 1006 (Blob [] None))] \<and>
   prune_files 0 0 5 \<lparr>dest_dir = None, outside = [], events = []\<rparr> = (None, \<lparr>dest_dir = None, outside = [], events = []\<rparr>)"
proof -
  let ?w = "\<lparr>dest_dir = Some ten_files, outside = [], events = []\<rparr>"
  let ?m = "\<lparr>dest_dir = None, outside = [], events = []\<rparr>"
  have h: "dest_dir ?w = Some ten_files" "plain_names ten_files" "all_files ten_files"
    "length ten_files = 10"
    by code_simp+
  have m: "dest_dir ?m = None" by simp
  from prune_keeps_newest [of ?m 0 0 5] m have missing: "prune_files 0 0 5 ?m = (None, ?m)" by blast
  from prune_keeps_newest [of ?w 0 0 5 ten_files 5] h
  have ok: "fst (prune_files 0 0 5 ?w) = None" and
    ex: "\<exists>d'. dest_dir (snd (prune_files 0 0 5 ?w)) = Some d' \<and>
            length d' = min (nat 5) (length ten_files)"
    by auto
  have ev: "dest_dir (snd (prune_files 0 0 5 ?w)) =
     Some [(''img07.jpg'', File 1007 (Blob [] None)), (''img10.jpg'', File 1010 (Blob [] None)),
           (''img09.jpg'', File 1009 (Blob [] None)), (''img08.jpg'', File 1008 (Blob [] None)),
           (''img06.jpg'', File 1006 (Blob [] None))]"
    by code_simp
  from h ok ev missing show ?thesis by simp
qed

section \<open>Mirroring after an empty fetch\<close>

text \<open>
  Claim C2, as amended. Let the album have its required keys and mirroring be enabled.
  When no media URL is listed the round ends after the warning, before pruning and before
  the reconciler. When at least one URL is listed, none is downloaded and pruning returns,
  the reconciler is called with the listing of the regular files on disk after pruning as
  its keep list, and it leaves the directory as pruning left it.
\<close>

theorem empty_fetch_preserves_files:
  assumes "str_truthy (cfg_shared_url cfg)" "str_truthy (cfg_album_subfolder cfg)"
    and "cfg_mirror_missing cfg"
  shows
   "(media = [] \<longrightarrow>
       sync_album cfg now media w = (None, log WarnNoMedia (log InfoSyncing (makedirs w)))) \<and>
    (media \<noteq> [] \<and>
     download_all media (cfg_index_filename cfg) (log InfoSyncing (makedirs w)) = (Inr [], w1) \<and>
     prune_files now (cfg_keep_days cfg) (cfg_max_files cfg) w1 = (None, w2) \<longrightarrow>
       sync_album cfg now media w = (None, mirror_missing_files (current_on_disk w2) w2) \<and>
       dest_dir (mirror_missing_files (current_on_disk w2) w2) = dest_dir w2 \<and>
       (\<exists>es. events (mirror_missing_files (current_on_disk w2) w2) =
              events w2 @ MirrorCall (current_on_disk w2) # es))"
proof (rule conjI; rule impI)
  assume "media = []"
  with assms show "sync_album cfg now media w = (None, log WarnNoMedia (log InfoSyncing (makedirs w)))"
    by (simp add: sync_album_def Let_def)
next
  assume a: "media \<noteq> [] \<and>
     download_all media (cfg_index_filename cfg) (log InfoSyncing (makedirs w)) = (Inr [], w1) \<and>
     prune_files now (cfg_keep_days cfg) (cfg_max_files cfg) w1 = (None, w2)"
  with assms have "sync_album cfg now media w = (None, mirror_missing_files (current_on_disk w2) w2)"
    by (simp add: sync_album_def Let_def)
  with mirror_with_listing_keeps_all [of w2] events_mirror_missing_files [of "current_on_disk w2" w2]
  show "sync_album cfg now media w = (None, mirror_missing_files (current_on_disk w2) w2) \<and>
       dest_dir (mirror_missing_files (current_on_disk w2) w2) = dest_dir w2 \<and>
       (\<exists>es. events (mirror_missing_files (current_on_disk w2) w2) =
              events w2 @ MirrorCall (current_on_disk w2) # es)"
    by blast
qed

text \<open>
  One listed URL whose body is five bytes: nothing is downloaded, the reconciler is called
  with the two files on disk, and both stay.
\<close>

theorem empty_fetch_preserves_files_witness:
  "download_all [(photo_url, tiny_exchange)] (cfg_index_filename mirror_cfg)
     (log InfoSyncing (makedirs album_world)) =
     (Inr [],
      \<lparr>dest_dir = dest_dir album_world, outside = [],
        events = [InfoSyncing, HeadRequest photo_url, GetRequest photo_url,
                  WarnTooSmallBody 5 photo_url]\<rparr>) \<and>
   fst (sync_album mirror_cfg 0 [(photo_url, tiny_exchange)] album_world) = None \<and>
   dest_dir (snd (sync_album mirror_cfg 0 [(photo_url, tiny_exchange)] album_world)) =
     dest_dir album_world \<and>
   (\<exists>es. events (snd (sync_album mirror_cfg 0 [(photo_url, tiny_exchange)] album_world)) =
      [InfoSyncing, HeadRequest photo_url, GetRequest photo_url, WarnTooSmallBody 5 photo_url] @
      MirrorCall [''abc123.jpg'', ''index.json''] # es)"
proof -
  let ?w1 = "\<lparr>dest_dir = dest_dir album_world, outside = [],
        events = [InfoSyncing, HeadRequest photo_url, GetRequest photo_url,
                  WarnTooSmallBody 5 photo_url]\<rparr>"
  let ?media = "[(photo_url, tiny_exchange)]"
  have c: "str_truthy (cfg_shared_url mirror_cfg)" "str_truthy (cfg_album_subfolder mirror_cfg)"
    "cfg_mirror_missing mirror_cfg"
    by (simp_all add: mirror_cfg_def str_truthy_def)
  have dl: "download_all ?media (cfg_index_filename mirror_cfg)
     (log InfoSyncing (makedirs album_world)) = (Inr [], ?w1)" by code_simp
  have pr: "prune_files 0 (cfg_keep_days mirror_cfg) (cfg_max_files mirror_cfg) ?w1 = (None, ?w1)"
    by code_simp
  have keep: "current_on_disk ?w1 = [''abc123.jpg'', ''index.json'']" by code_simp
  from empty_fetch_preserves_files [OF c, of ?media 0 album_world ?w1 ?w1] dl pr
  have "sync_album mirror_cfg 0 ?media album_world =
          (None, mirror_missing_files (current_on_disk ?w1) ?w1)"
    "dest_dir (mirror_missing_files (current_on_disk ?w1) ?w1) = dest_dir ?w1"
    "\<exists>es. events (mirror_missing_files (current_on_disk ?w1) ?w1) =
              events ?w1 @ MirrorCall (current_on_disk ?w1) # es"
    by simp_all
  with dl keep show ?thesis by simp
qed

text \<open>
  Claim C2 as stated fails when the media list is empty: mirroring is enabled and nothing
  is downloaded, and the round ends with the two log lines; the reconciler is not called.
\<close>

theorem no_media_no_reconciliation:
  "cfg_mirror_missing mirror_cfg \<and>
   sync_album mirror_cfg 0 [] album_world =
     (None, \<lparr>dest_dir = dest_dir album_world, outside = [],
             events = [InfoSyncing, WarnNoMedia]\<rparr>)"
  by code_simp

section \<open>Mirroring after downloads\<close>

text \<open>
  Claim C6. Let the album have its required keys, mirroring be enabled and the directory
  be well formed. When the download loop ends with a non-empty list of names and pruning
  returns, the list holds, for each URL whose download was accepted and in the order of
  the downloads, the URL-derived basename of that URL, whatever name the file was saved
  under; that basename is the last segment of the URL before its first question mark: for
  a URL made of a prefix that is empty or ends in a slash, a segment without a slash, and
  a rest that is empty or starts with a question mark, where no question mark occurs
  before the rest, it is the segment. The reconciler is called with exactly this list as
  its keep list, and afterwards the directory holds, of what pruning left, only the
  regular files whose name is in the list, and the subdirectories. A file saved under
  another name, and the ledger, are deleted.
\<close>

theorem mirror_keeps_url_basenames:
  assumes "str_truthy (cfg_shared_url cfg)" "str_truthy (cfg_album_subfolder cfg)"
    and "cfg_mirror_missing cfg" and "plain_names (dir_of w)"
    and "download_all media (cfg_index_filename cfg) (log InfoSyncing (makedirs w)) = (Inr names, w1)"
    and "names \<noteq> []"
    and "prune_files now (cfg_keep_days cfg) (cfg_max_files cfg) w1 = (None, w2)"
  shows "names = map url_basename
                   (downloaded_urls media (cfg_index_filename cfg) (log InfoSyncing (makedirs w))) \<and>
         (\<forall>pre seg rest.
            (pre = [] \<or> last pre = CHR ''/'') \<and> CHR ''/'' \<notin> set seg \<and>
            CHR ''?'' \<notin> set (pre @ seg) \<and> (rest = [] \<or> hd rest = CHR ''?'') \<longrightarrow>
            url_basename (pre @ seg @ rest) = seg) \<and>
         sync_album cfg now media w = (None, mirror_missing_files names w2) \<and>
         (\<exists>d2. dest_dir w2 = Some d2 \<and>
               dest_dir (mirror_missing_files names w2) =
                 Some (filter (\<lambda>(n, x). n \<in> set names \<or> \<not> is_file x) d2)) \<and>
         (\<exists>es. events (mirror_missing_files names w2) = events w2 @ MirrorCall names # es)"
proof -
  let ?w0 = "log InfoSyncing (makedirs w)"
  have media: "media \<noteq> []" using assms(5,6) by auto
  have d0: "dest_dir ?w0 = Some (dir_of w)" by (simp add: dest_dir_makedirs dir_of_def)
  from download_all_plain [OF d0 assms(4), of media "cfg_index_filename cfg"] assms(5)
  obtain d1 where d1: "dest_dir w1 = Some d1" "plain_names d1" by auto
  from prune_files_plain [OF d1, of now "cfg_keep_days cfg" "cfg_max_files cfg"] assms(7)
  obtain d2 where d2: "dest_dir w2 = Some d2" "plain_names d2" by auto
  have "sync_album cfg now media w = (None, mirror_missing_files names w2)"
    using assms(1-3,5-7) media by (simp add: sync_album_def Let_def)
  moreover note download_all_urls [OF assms(5)]
  moreover have "\<forall>pre seg rest.
            (pre = [] \<or> last pre = CHR ''/'') \<and> CHR ''/'' \<notin> set seg \<and>
            CHR ''?'' \<notin> set (pre @ seg) \<and> (rest = [] \<or> hd rest = CHR ''?'') \<longrightarrow>
            url_basename (pre @ seg @ rest) = seg"
    using url_basename_segment by blast
  moreover have "\<exists>d2. dest_dir w2 = Some d2 \<and>
               dest_dir (mirror_missing_files names w2) =
                 Some (filter (\<lambda>(n, x). n \<in> set names \<or> \<not> is_file x) d2)"
    using mirror_missing_files_result [OF d2, of names] d2(1) by blast
  moreover note events_mirror_missing_files [of names w2]
  ultimately show ?thesis by blast
qed

text \<open>
  One photo whose response names it \<open>IMG_0001.JPG\<close> while its URL ends in \<open>abc123.jpg\<close>
  before the query string: the download is accepted, the keep list is \<open>abc123.jpg\<close>, so
  the new file and the ledger are deleted and the old file of that name stays.
\<close>

theorem mirror_keeps_url_basenames_witness:
  "target_filename photo_response photo_url = ''IMG_0001.JPG'' \<and>
   photo_url = ''https://h.example/B/'' @ ''abc123.jpg'' @ ''?o=AbC&v=1'' \<and>
   url_basename photo_url = ''abc123.jpg'' \<and>
   downloaded_urls [(photo_url, photo_exchange)] (cfg_index_filename mirror_cfg)
     (log InfoSyncing (makedirs album_world)) = [photo_url] \<and>
   fst (download_all [(photo_url, photo_exchange)] (cfg_index_filename mirror_cfg)
          (log InfoSyncing (makedirs album_world))) = Inr [''abc123.jpg''] \<and>
   dest_dir (snd (download_all [(photo_url, photo_exchange)] (cfg_index_filename mirror_cfg)
          (log InfoSyncing (makedirs album_world)))) = Some album_dir_after_photo \<and>
   fst (sync_album mirror_cfg 0 [(photo_url, photo_exchange)] album_world) = None \<and>
   dest_dir (snd (sync_album mirror_cfg 0 [(photo_url, photo_exchange)] album_world)) =
     Some [(''abc123.jpg'', File 1600000000000000 (Blob [9, 9] None))]"
proof -
  let ?media = "[(photo_url, photo_exchange)]"
  let ?w0 = "log InfoSyncing (makedirs album_world)"
  let ?run = "download_all ?media (cfg_index_filename mirror_cfg) ?w0"
  have c: "str_truthy (cfg_shared_url mirror_cfg)" "str_truthy (cfg_album_subfolder mirror_cfg)"
    "cfg_mirror_missing mirror_cfg"
    by (simp_all add: mirror_cfg_def str_truthy_def)
  have pn: "plain_names (dir_of album_world)" by code_simp
  have idx: "cfg_index_filename mirror_cfg = Some ''index.json''" by (simp add: mirror_cfg_def)
  have d0: "dest_dir ?w0 = dest_dir album_world" by (simp add: makedirs_def album_world_def)
  have url: "photo_url = ''https://h.example/B/'' @ ''abc123.jpg'' @ ''?o=AbC&v=1''"
    by (simp add: photo_url_def)
  obtain r w1 where step: "download_file photo_exchange photo_url (Some ''index.json'') ?w0 = (r, w1)"
    by (cases "download_file photo_exchange photo_url (Some ''index.json'') ?w0")
  with photo_with_ledger [OF d0] have r: "r = Inr True" and
    d1: "dest_dir w1 = Some album_dir_after_photo" by simp_all
  have urls: "downloaded_urls ?media (cfg_index_filename mirror_cfg) ?w0 = [photo_url]"
    using step r by (simp add: idx)
  have dl: "?run = (Inr [url_basename photo_url], w1)" using step r by (simp add: idx)
  have len: "length album_dir_after_photo = 3" by (simp add: album_dir_after_photo_def)
  have pr: "prune_files 0 (cfg_keep_days mirror_cfg) (cfg_max_files mirror_cfg) w1 = (None, w1)"
    using prune_count_only [OF d1, of 0 500]
    by (simp add: mirror_cfg_def Let_def names_newest_first len)
  have names: "[url_basename photo_url] \<noteq> []" by simp
  note inst = mirror_keeps_url_basenames [OF c pn dl names pr]
  note chars = inst [THEN conjunct2, THEN conjunct1]
  note sync = inst [THEN conjunct2, THEN conjunct2, THEN conjunct1]
  note left = inst [THEN conjunct2, THEN conjunct2, THEN conjunct2, THEN conjunct1]
  from chars have segment: "url_basename (pre @ seg @ rest) = seg"
    if "pre = [] \<or> last pre = CHR ''/''" "CHR ''/'' \<notin> set seg"
      "CHR ''?'' \<notin> set (pre @ seg)" "rest = [] \<or> hd rest = CHR ''?''" for pre seg rest
    using that by blast
  have "url_basename (''https://h.example/B/'' @ ''abc123.jpg'' @ ''?o=AbC&v=1'') = ''abc123.jpg''"
    by (rule segment) simp_all
  then have base: "url_basename photo_url = ''abc123.jpg''" by (simp only: url)
  from left d1
  have "dest_dir (mirror_missing_files [url_basename photo_url] w1) =
       Some (filter (\<lambda>(n, x). n \<in> set [url_basename photo_url] \<or> \<not> is_file x) album_dir_after_photo)"
    by simp
  with sync
  have "fst (sync_album mirror_cfg 0 ?media album_world) = None"
    "dest_dir (snd (sync_album mirror_cfg 0 ?media album_world)) =
       Some [(''abc123.jpg'', File 1600000000000000 (Blob [9, 9] None))]"
    by (simp_all add: album_dir_after_photo_def base)
  with dl d1 target_photo url base urls show ?thesis by simp
qed

end
